theory Spec2Isabelle
  imports Main "HOL-Library.Word" "HOL-Library.Multiset"
begin

section \<open>The game engine of UEFI Tetris (src/tetris.c)\<close>

text \<open>
  A shallow embedding of the game engine of \<^verbatim>\<open>src/tetris.c\<close>: the piece catalog
  \<^verbatim>\<open>TETRIS\<close>, the well, the active piece \<^verbatim>\<open>current\<close>, the bag, and the functions
  \<^verbatim>\<open>rand\<close>, \<^verbatim>\<open>shuffle\<close>, \<^verbatim>\<open>collide\<close>, \<^verbatim>\<open>spawn\<close>, \<^verbatim>\<open>ghost\<close>, \<^verbatim>\<open>move\<close>, \<^verbatim>\<open>rotate\<close>,
  \<^verbatim>\<open>soft_drop\<close>, \<^verbatim>\<open>lock\<close>, \<^verbatim>\<open>update\<close>, \<^verbatim>\<open>clear_rows\<close>, \<^verbatim>\<open>drop\<close> and the game
  initialisation of \<^verbatim>\<open>efi_main\<close>.

  Machine integers are words: \<^verbatim>\<open>uint8_t\<close> and \<^verbatim>\<open>int8_t\<close> are \<open>8 word\<close> (read with
  \<open>unat\<close> and \<open>sint\<close> respectively), \<^verbatim>\<open>uint32_t\<close> is \<open>32 word\<close>, \<^verbatim>\<open>uint64_t\<close> is
  \<open>64 word\<close>. Where C promotes to \<^verbatim>\<open>int\<close> before an operation (index arithmetic,
  comparisons), the model computes on \<open>int\<close>. Loop counters that stay within a small
  range are \<open>nat\<close>. Global variables are the fields of one record that every function
  takes and returns. An access outside an array, and a division by zero, are undefined
  behaviour in C: a function that can reach one returns \<open>None\<close> there.
\<close>

subsection \<open>Integer types and constants\<close>

type_synonym uint8_t = "8 word"
type_synonym int8_t = "8 word"
type_synonym uint32_t = "32 word"
type_synonym uint64_t = "64 word"

definition WELL_WIDTH :: int where "WELL_WIDTH = 10"
definition WELL_HEIGHT :: int where "WELL_HEIGHT = 22"
definition INITIAL_SPEED :: uint32_t where "INITIAL_SPEED = 1000"
definition SCORE_FACTOR_1 :: uint32_t where "SCORE_FACTOR_1 = 100"
definition SCORE_FACTOR_2 :: uint32_t where "SCORE_FACTOR_2 = 300"
definition SCORE_FACTOR_3 :: uint32_t where "SCORE_FACTOR_3 = 500"
definition SCORE_FACTOR_4 :: uint32_t where "SCORE_FACTOR_4 = 800"
definition SOFT_DROP_SCORE :: uint32_t where "SOFT_DROP_SCORE = 1"
definition HARD_DROP_SCORE_FACTOR :: int where "HARD_DROP_SCORE_FACTOR = 2"
definition ROWS_PER_LEVEL :: uint8_t where "ROWS_PER_LEVEL = 10"
definition BAG_SIZE :: uint32_t where "BAG_SIZE = 7"

subsection \<open>The piece catalog\<close>

text \<open>
  \<^verbatim>\<open>uint8_t TETRIS[7][4][4][4]\<close>: kind, rotation, row \<open>yy\<close>, column \<open>xx\<close>. The kinds are,
  by index, I, J, L, O, S, T, Z (the comments of the source): S is index 4 and Z is
  index 6.
\<close>

definition TETRIS :: "uint8_t list list list list" where
  "TETRIS =
   [ \<comment> \<open>I\<close>
     [[[0,0,0,0],[4,4,4,4],[0,0,0,0],[0,0,0,0]],
      [[0,4,0,0],[0,4,0,0],[0,4,0,0],[0,4,0,0]],
      [[0,0,0,0],[4,4,4,4],[0,0,0,0],[0,0,0,0]],
      [[0,4,0,0],[0,4,0,0],[0,4,0,0],[0,4,0,0]]],
     \<comment> \<open>J\<close>
     [[[7,0,0,0],[7,7,7,0],[0,0,0,0],[0,0,0,0]],
      [[0,7,7,0],[0,7,0,0],[0,7,0,0],[0,0,0,0]],
      [[0,0,0,0],[7,7,7,0],[0,0,7,0],[0,0,0,0]],
      [[0,7,0,0],[0,7,0,0],[7,7,0,0],[0,0,0,0]]],
     \<comment> \<open>L\<close>
     [[[0,0,5,0],[5,5,5,0],[0,0,0,0],[0,0,0,0]],
      [[0,5,0,0],[0,5,0,0],[0,5,5,0],[0,0,0,0]],
      [[0,0,0,0],[5,5,5,0],[5,0,0,0],[0,0,0,0]],
      [[5,5,0,0],[0,5,0,0],[0,5,0,0],[0,0,0,0]]],
     \<comment> \<open>O\<close>
     [[[0,0,0,0],[0,1,1,0],[0,1,1,0],[0,0,0,0]],
      [[0,0,0,0],[0,1,1,0],[0,1,1,0],[0,0,0,0]],
      [[0,0,0,0],[0,1,1,0],[0,1,1,0],[0,0,0,0]],
      [[0,0,0,0],[0,1,1,0],[0,1,1,0],[0,0,0,0]]],
     \<comment> \<open>S\<close>
     [[[0,0,0,0],[0,2,2,0],[2,2,0,0],[0,0,0,0]],
      [[0,2,0,0],[0,2,2,0],[0,0,2,0],[0,0,0,0]],
      [[0,0,0,0],[0,2,2,0],[2,2,0,0],[0,0,0,0]],
      [[0,2,0,0],[0,2,2,0],[0,0,2,0],[0,0,0,0]]],
     \<comment> \<open>T\<close>
     [[[0,6,0,0],[6,6,6,0],[0,0,0,0],[0,0,0,0]],
      [[0,6,0,0],[0,6,6,0],[0,6,0,0],[0,0,0,0]],
      [[0,0,0,0],[6,6,6,0],[0,6,0,0],[0,0,0,0]],
      [[0,6,0,0],[6,6,0,0],[0,6,0,0],[0,0,0,0]]],
     \<comment> \<open>Z\<close>
     [[[0,0,0,0],[3,3,0,0],[0,3,3,0],[0,0,0,0]],
      [[0,0,3,0],[0,3,3,0],[0,3,0,0],[0,0,0,0]],
      [[0,0,0,0],[3,3,0,0],[0,3,3,0],[0,0,0,0]],
      [[0,0,3,0],[0,3,3,0],[0,3,0,0],[0,0,0,0]]]
   ]"

text \<open>\<^verbatim>\<open>TETRIS[i][r][yy][xx]\<close>, for \<open>i < 7\<close>, \<open>r < 4\<close>, \<open>yy < 4\<close>, \<open>xx < 4\<close>.\<close>

definition tetris_cell :: "uint8_t \<Rightarrow> uint8_t \<Rightarrow> nat \<Rightarrow> nat \<Rightarrow> uint8_t" where
  "tetris_cell i r yy xx = TETRIS ! unat i ! unat r ! yy ! xx"

subsection \<open>The well and collision\<close>

text \<open>
  \<^verbatim>\<open>uint8_t well[WELL_HEIGHT][WELL_WIDTH]\<close>: a list of 22 rows of 10 cells, row 0 on top.
\<close>

type_synonym well_t = "uint8_t list list"

definition wf_well :: "well_t \<Rightarrow> bool" where
  "wf_well w \<longleftrightarrow> length w = 22 \<and> list_all (\<lambda>row. length row = 10) w"

text \<open>
  The test of one cell in \<^verbatim>\<open>collide\<close>. \<^verbatim>\<open>x + xx\<close> and \<^verbatim>\<open>y + yy\<close> are computed on
  \<^verbatim>\<open>int\<close>; \<^verbatim>\<open>||\<close> evaluates left to right, so the well is read only at a
  coordinate inside it.
\<close>

definition collide_cell :: "well_t \<Rightarrow> uint8_t \<Rightarrow> uint8_t \<Rightarrow> int8_t \<Rightarrow> int8_t \<Rightarrow> nat \<Rightarrow> nat \<Rightarrow> bool" where
  "collide_cell w i r x y yy xx \<longleftrightarrow>
     tetris_cell i r yy xx \<noteq> 0 \<and>
     (sint x + int xx < 0 \<or> sint x + int xx \<ge> WELL_WIDTH \<or>
      sint y + int yy < 0 \<or> sint y + int yy \<ge> WELL_HEIGHT \<or>
      w ! nat (sint y + int yy) ! nat (sint x + int xx) \<noteq> 0)"

text \<open>
  The two nested \<^verbatim>\<open>for\<close> loops of \<^verbatim>\<open>collide\<close>, with the counters \<open>yy\<close> and \<open>xx\<close>
  as arguments; \<^verbatim>\<open>return true\<close> leaves both loops.
\<close>

function collide_loop :: "well_t \<Rightarrow> uint8_t \<Rightarrow> uint8_t \<Rightarrow> int8_t \<Rightarrow> int8_t \<Rightarrow> nat \<Rightarrow> nat \<Rightarrow> bool" where
  "collide_loop w i r x y yy xx =
     (if yy < 4 then
        (if xx < 4 then
           (if collide_cell w i r x y yy xx then True
            else collide_loop w i r x y yy (xx + 1))
         else collide_loop w i r x y (yy + 1) 0)
      else False)"
  by pat_completeness auto
termination
  by (relation "measures [\<lambda>(w, i, r, x, y, yy, xx). 4 - yy, \<lambda>(w, i, r, x, y, yy, xx). 4 - xx]") auto

declare collide_loop.simps [simp del]

definition collide :: "well_t \<Rightarrow> uint8_t \<Rightarrow> uint8_t \<Rightarrow> int8_t \<Rightarrow> int8_t \<Rightarrow> bool" where
  "collide w i r x y = collide_loop w i r x y 0 0"

text \<open>
  The collision test as the specification words it, with three causes only: out of the
  horizontal bounds, at or below the bottom, or on an occupied cell of the well (which
  a cell above the top cannot be).
\<close>

definition collide_spec_cell :: "well_t \<Rightarrow> uint8_t \<Rightarrow> uint8_t \<Rightarrow> int8_t \<Rightarrow> int8_t \<Rightarrow> nat \<Rightarrow> nat \<Rightarrow> bool" where
  "collide_spec_cell w i r x y yy xx \<longleftrightarrow>
     tetris_cell i r yy xx \<noteq> 0 \<and>
     (sint x + int xx < 0 \<or> sint x + int xx \<ge> WELL_WIDTH \<or>
      sint y + int yy \<ge> WELL_HEIGHT \<or>
      (0 \<le> sint y + int yy \<and> w ! nat (sint y + int yy) ! nat (sint x + int xx) \<noteq> 0))"

definition collide_spec :: "well_t \<Rightarrow> uint8_t \<Rightarrow> uint8_t \<Rightarrow> int8_t \<Rightarrow> int8_t \<Rightarrow> bool" where
  "collide_spec w i r x y \<longleftrightarrow>
     list_ex (\<lambda>yy. list_ex (\<lambda>xx. collide_spec_cell w i r x y yy xx) [0..<4]) [0..<4]"

definition empty_well :: well_t where
  "empty_well = replicate 22 (replicate 10 0)"

subsection \<open>The game state\<close>

text \<open>
  The global variables of the engine. \<^verbatim>\<open>current.i\<close>, \<^verbatim>\<open>current.r\<close>, \<^verbatim>\<open>current.p\<close>,
  \<^verbatim>\<open>current.x\<close>, \<^verbatim>\<open>current.y\<close>, \<^verbatim>\<open>current.g\<close> are the fields \<open>cur_i\<close> ... \<open>cur_g\<close>;
  \<open>level_rows\<close> is the \<^verbatim>\<open>static\<close> local of \<^verbatim>\<open>update\<close>. The time-stamp counter read by
  \<^verbatim>\<open>rdtsc\<close> is an input of the program: \<open>tsc s n\<close> is the value of its \<open>n\<close>-th reading
  and \<open>reads s\<close> counts the readings made so far.
\<close>

record game =
  well :: well_t
  cur_i :: uint8_t
  cur_r :: uint8_t
  cur_p :: uint8_t
  cur_x :: int8_t
  cur_y :: int8_t
  cur_g :: int8_t
  bag :: "uint8_t list"
  score :: uint32_t
  level :: uint32_t
  speed :: uint32_t
  level_up :: uint32_t
  paused :: bool
  game_over :: bool
  stats :: "uint32_t list"
  cleared_rows :: "int8_t list"
  level_rows :: uint8_t
  tsc :: "nat \<Rightarrow> uint64_t"
  reads :: nat

subsection \<open>Random numbers and the bag\<close>

text \<open>
  \<^verbatim>\<open>rand(range)\<close> is \<^verbatim>\<open>(uint32_t) rdtsc() % range\<close>: the cast applies to the counter.
  It returns the number and the new count of readings.
\<close>

definition rand :: "(nat \<Rightarrow> uint64_t) \<Rightarrow> nat \<Rightarrow> uint32_t \<Rightarrow> uint32_t \<times> nat" where
  "rand t n rng = ((ucast (t n) :: uint32_t) mod rng, n + 1)"

text \<open>
  The loop of \<^verbatim>\<open>shuffle\<close>, \<^verbatim>\<open>for (i = len - 1; i > 0; i--)\<close>, with the swap through
  \<^verbatim>\<open>t\<close>. The engine calls \<^verbatim>\<open>shuffle\<close> with the bag and \<^verbatim>\<open>BAG_SIZE\<close> only, where
  every index is inside the array.
\<close>

function shuffle_loop :: "(nat \<Rightarrow> uint64_t) \<Rightarrow> nat \<Rightarrow> uint8_t list \<Rightarrow> nat \<Rightarrow> uint8_t list \<times> nat" where
  "shuffle_loop t n arr i =
     (if i > 0 then
        (case rand t n (of_nat i + 1) of (j, n') \<Rightarrow>
           let tmp = arr ! i;
               arr1 = arr[i := arr ! unat j];
               arr2 = arr1[unat j := tmp]
           in shuffle_loop t n' arr2 (i - 1))
      else (arr, n))"
  by pat_completeness auto
termination
  by (relation "measure (\<lambda>(t, n, arr, i). i)") auto

declare shuffle_loop.simps [simp del]

definition shuffle :: "(nat \<Rightarrow> uint64_t) \<Rightarrow> nat \<Rightarrow> uint8_t list \<Rightarrow> uint32_t \<Rightarrow> uint8_t list \<times> nat" where
  "shuffle t n arr len = shuffle_loop t n arr (unat (len - 1))"

definition initial_bag :: "uint8_t list" where
  "initial_bag = [0, 1, 2, 3, 4, 5, 6]"

subsection \<open>The active piece\<close>

text \<open>\<^verbatim>\<open>spawn\<close>. \<^verbatim>\<open>WELL_WIDTH / 2 - 2\<close> is 3.\<close>

definition spawn :: "game \<Rightarrow> game" where
  "spawn s =
     (let i = bag s ! unat (cur_p s);
          s1 = s\<lparr>cur_i := i,
                 stats := (stats s)[unat i := stats s ! unat i + 1],
                 cur_r := 0,
                 cur_x := word_of_int (WELL_WIDTH div 2 - 2),
                 cur_y := 0,
                 cur_p := cur_p s + 1\<rparr>
      in if ucast (cur_p s1) = BAG_SIZE then
           (case shuffle (tsc s1) (reads s1) (bag s1) BAG_SIZE of
              (b, n) \<Rightarrow> s1\<lparr>cur_p := 0, bag := b, reads := n\<rparr>)
         else s1)"

text \<open>
  \<^verbatim>\<open>ghost\<close>: the loop \<^verbatim>\<open>for (y = current.y; y < WELL_HEIGHT; y++)\<close> with its
  \<^verbatim>\<open>break\<close>, returning the value of \<^verbatim>\<open>y\<close> after the loop.
\<close>

function ghost_loop :: "well_t \<Rightarrow> uint8_t \<Rightarrow> uint8_t \<Rightarrow> int8_t \<Rightarrow> int8_t \<Rightarrow> int8_t" where
  "ghost_loop w i r x y =
     (if sint y < WELL_HEIGHT then
        (if collide w i r x y then y else ghost_loop w i r x (y + 1))
      else y)"
  by pat_completeness auto
termination
proof (relation "measure (\<lambda>(w, i, r, x, y). nat (22 - sint y))")
  show "wf (measure (\<lambda>(w, i, r, x, y). nat (22 - sint (y :: int8_t))))"
    by simp
next
  fix w :: well_t and i r :: uint8_t and x y :: int8_t
  assume "sint y < WELL_HEIGHT"
  then have "sint y < 22"
    by (simp add: WELL_HEIGHT_def)
  then have "sint (y + 1) = sint y + 1"
    using sint_ge [of y] by (simp add: sint_word_ariths signed_take_bit_int_eq_self)
  with \<open>sint y < 22\<close>
  show "((w, i, r, x, y + 1), (w, i, r, x, y)) \<in> measure (\<lambda>(w, i, r, x, y). nat (22 - sint y))"
    by simp
qed

declare ghost_loop.simps [simp del]

definition ghost :: "game \<Rightarrow> game" where
  "ghost s = s\<lparr>cur_g := ghost_loop (well s) (cur_i s) (cur_r s) (cur_x s) (cur_y s) - 1\<rparr>"

text \<open>\<^verbatim>\<open>move\<close> and \<^verbatim>\<open>rotate\<close> return their \<^verbatim>\<open>bool\<close> and the new state.\<close>

definition move :: "game \<Rightarrow> int8_t \<Rightarrow> int8_t \<Rightarrow> bool \<times> game" where
  "move s dx dy =
     (if game_over s then (False, s)
      else if collide (well s) (cur_i s) (cur_r s) (cur_x s + dx) (cur_y s + dy) then (False, s)
      else (True, s\<lparr>cur_x := cur_x s + dx, cur_y := cur_y s + dy\<rparr>))"

definition rotate_piece :: "game \<Rightarrow> bool \<times> game" where
  "rotate_piece s =
     (if game_over s then (False, s)
      else
        let r = (word_of_int ((uint (cur_r s) + 1) mod 4) :: uint8_t)
        in if collide (well s) (cur_i s) r (cur_x s) (cur_y s) then (False, s)
           else (True, s\<lparr>cur_r := r\<rparr>))"

definition soft_drop :: "game \<Rightarrow> game" where
  "soft_drop s =
     (case move s 0 1 of
        (True, s1) \<Rightarrow> s1\<lparr>score := score s1 + SOFT_DROP_SCORE\<rparr>
      | (False, s1) \<Rightarrow> s1)"

text \<open>
  \<^verbatim>\<open>lock\<close>: the same two loops as \<^verbatim>\<open>collide\<close>, writing the well. The write has no
  bounds check in the source; outside the well it is undefined behaviour, \<open>None\<close>.
\<close>

function lock_loop :: "well_t \<Rightarrow> uint8_t \<Rightarrow> uint8_t \<Rightarrow> int8_t \<Rightarrow> int8_t \<Rightarrow> nat \<Rightarrow> nat \<Rightarrow> well_t option" where
  "lock_loop w i r cx cy y x =
     (if y < 4 then
        (if x < 4 then
           (if tetris_cell i r y x \<noteq> 0 then
              (if 0 \<le> sint cy + int y \<and> sint cy + int y < WELL_HEIGHT \<and>
                  0 \<le> sint cx + int x \<and> sint cx + int x < WELL_WIDTH then
                 lock_loop
                   (w[nat (sint cy + int y) :=
                        (w ! nat (sint cy + int y))[nat (sint cx + int x) := tetris_cell i r y x]])
                   i r cx cy y (x + 1)
               else None)
            else lock_loop w i r cx cy y (x + 1))
         else lock_loop w i r cx cy (y + 1) 0)
      else Some w)"
  by pat_completeness auto
termination
  by (relation "measures [\<lambda>(w, i, r, cx, cy, y, x). 4 - y, \<lambda>(w, i, r, cx, cy, y, x). 4 - x]") auto

declare lock_loop.simps [simp del]

definition lock :: "game \<Rightarrow> game option" where
  "lock s =
     (case lock_loop (well s) (cur_i s) (cur_r s) (cur_x s) (cur_y s) 0 0 of
        None \<Rightarrow> None
      | Some w \<Rightarrow> Some (s\<lparr>well := w\<rparr>))"

subsection \<open>The update step\<close>

text \<open>
  Gravity, the first part of \<^verbatim>\<open>update\<close>. The \<^verbatim>\<open>bool\<close> says whether \<^verbatim>\<open>update\<close>
  returns there (the game-over branch).
\<close>

definition gravity :: "game \<Rightarrow> (bool \<times> game) option" where
  "gravity s =
     (case move s 0 1 of
        (True, s1) \<Rightarrow> Some (False, s1)
      | (False, s1) \<Rightarrow>
          if cur_y s1 = 0 then Some (True, s1\<lparr>game_over := True\<rparr>)
          else (case lock s1 of
                  None \<Rightarrow> None
                | Some s2 \<Rightarrow> Some (False, spawn s2)))"

text \<open>
  Row clearing: the inner loop counts the nonzero cells of row \<open>y\<close>; the outer loop
  records each full row in \<^verbatim>\<open>cleared_rows[i++]\<close>, an array of four (a fifth full row
  would be written past its end: \<open>None\<close>), and counts it in \<open>rows\<close>.
\<close>

function count_loop :: "well_t \<Rightarrow> nat \<Rightarrow> nat \<Rightarrow> nat \<Rightarrow> nat" where
  "count_loop w y x a =
     (if int x < WELL_WIDTH then count_loop w y (x + 1) (if w ! y ! x \<noteq> 0 then a + 1 else a)
      else a)"
  by pat_completeness auto
termination
  by (relation "measure (\<lambda>(w, y, x, a). 10 - x)") (auto simp: WELL_WIDTH_def)

declare count_loop.simps [simp del]

function scan_loop :: "well_t \<Rightarrow> int8_t list \<Rightarrow> nat \<Rightarrow> nat \<Rightarrow> nat \<Rightarrow> (int8_t list \<times> nat) option" where
  "scan_loop w cr y i rows =
     (if int y < WELL_HEIGHT then
        (if int (count_loop w y 0 0) \<noteq> WELL_WIDTH then scan_loop w cr (y + 1) i rows
         else if i < 4 then scan_loop w (cr[i := of_nat y]) (y + 1) (i + 1) (rows + 1)
         else None)
      else Some (cr, rows))"
  by pat_completeness auto
termination
  by (relation "measure (\<lambda>(w, cr, y, i, rows). 22 - y)") (auto simp: WELL_HEIGHT_def)

declare scan_loop.simps [simp del]

definition row_clearing :: "game \<Rightarrow> (nat \<times> game) option" where
  "row_clearing s =
     (case scan_loop (well s) (cleared_rows s) 0 0 0 of
        None \<Rightarrow> None
      | Some (cr, rows) \<Rightarrow> Some (rows, s\<lparr>cleared_rows := cr\<rparr>))"

text \<open>Scoring: the \<^verbatim>\<open>switch (rows)\<close>, which has no default case.\<close>

definition scoring :: "nat \<Rightarrow> game \<Rightarrow> game" where
  "scoring rows s =
     (if rows = 1 then s\<lparr>score := score s + SCORE_FACTOR_1 * level s\<rparr>
      else if rows = 2 then s\<lparr>score := score s + SCORE_FACTOR_2 * level s\<rparr>
      else if rows = 3 then s\<lparr>score := score s + SCORE_FACTOR_3 * level s\<rparr>
      else if rows = 4 then s\<lparr>score := score s + SCORE_FACTOR_4 * level s\<rparr>
      else s)"

text \<open>
  Leveling. \<^verbatim>\<open>990 / level\<close> divides by the incremented level; were that 0 (after
  \<open>2^32 - 1\<close>), the division would be undefined: \<open>None\<close>.
\<close>

definition leveling :: "nat \<Rightarrow> game \<Rightarrow> game option" where
  "leveling rows s =
     (let s1 = s\<lparr>level_rows := level_rows s + of_nat rows\<rparr>
      in if level_rows s1 \<ge> ROWS_PER_LEVEL then
           (let s2 = s1\<lparr>level := level s1 + 1\<rparr>;
                s3 = s2\<lparr>level_rows := level_rows s2 - ROWS_PER_LEVEL\<rparr>
            in if level s3 = 0 then None
               else Some (s3\<lparr>speed := 10 + 990 div level s3, level_up := 1\<rparr>))
         else Some s1)"

definition update :: "game \<Rightarrow> game option" where
  "update s =
     (case gravity s of
        None \<Rightarrow> None
      | Some (True, s1) \<Rightarrow> Some s1
      | Some (False, s1) \<Rightarrow>
          (case row_clearing s1 of
             None \<Rightarrow> None
           | Some (rows, s2) \<Rightarrow> leveling rows (scoring rows s2)))"

subsection \<open>Clearing rows and the hard drop\<close>

text \<open>
  \<^verbatim>\<open>clear_rows\<close>: the innermost loop copies row \<open>y - 1\<close> into row \<open>y\<close> cell by cell,
  the middle loop runs \<open>y\<close> from the recorded row down to 1, the outer loop runs over
  \<^verbatim>\<open>cleared_rows\<close> and stops at the first entry that is 0. A recorded row of 22 or more
  would be outside the well: \<open>None\<close>.
\<close>

function copy_loop :: "well_t \<Rightarrow> nat \<Rightarrow> nat \<Rightarrow> well_t" where
  "copy_loop w y x =
     (if int x < WELL_WIDTH then copy_loop (w[y := (w ! y)[x := w ! (y - 1) ! x]]) y (x + 1)
      else w)"
  by pat_completeness auto
termination
  by (relation "measure (\<lambda>(w, y, x). 10 - x)") (auto simp: WELL_WIDTH_def)

declare copy_loop.simps [simp del]

function shift_loop :: "well_t \<Rightarrow> nat \<Rightarrow> well_t" where
  "shift_loop w y = (if y > 0 then shift_loop (copy_loop w y 0) (y - 1) else w)"
  by pat_completeness auto
termination
  by (relation "measure (\<lambda>(w, y). y)") auto

declare shift_loop.simps [simp del]

function clear_loop :: "well_t \<Rightarrow> int8_t list \<Rightarrow> nat \<Rightarrow> (well_t \<times> int8_t list) option" where
  "clear_loop w cr i =
     (if i < 4 then
        (if cr ! i = 0 then Some (w, cr)
         else if sint (cr ! i) \<ge> WELL_HEIGHT then None
         else clear_loop (shift_loop w (nat (sint (cr ! i)))) (cr[i := 0]) (i + 1))
      else Some (w, cr))"
  by pat_completeness auto
termination
  by (relation "measure (\<lambda>(w, cr, i). 4 - i)") auto

declare clear_loop.simps [simp del]

definition clear_rows :: "game \<Rightarrow> game option" where
  "clear_rows s =
     (case clear_loop (well s) (cleared_rows s) 0 of
        None \<Rightarrow> None
      | Some (w, cr) \<Rightarrow> Some (s\<lparr>well := w, cleared_rows := cr\<rparr>))"

text \<open>
  \<^verbatim>\<open>drop\<close>. \<^verbatim>\<open>HARD_DROP_SCORE_FACTOR * (current.g - current.y)\<close> is computed on
  \<^verbatim>\<open>int\<close> and converted to \<^verbatim>\<open>uint32_t\<close> by the addition to the score.
\<close>

definition drop_piece :: "game \<Rightarrow> game option" where
  "drop_piece s =
     (if game_over s then Some s
      else update (s\<lparr>score := score s +
                        word_of_int (HARD_DROP_SCORE_FACTOR * (sint (cur_g s) - sint (cur_y s))),
                      cur_y := cur_g s\<rparr>))"

subsection \<open>Initialisation\<close>

text \<open>
  The values of the globals when \<^verbatim>\<open>efi_main\<close> reaches the initialisation of the game:
  the initialisers of the declarations, zero for the statics without one, and the
  assignments at the start of \<^verbatim>\<open>efi_main\<close>.
\<close>

definition initial_game :: "(nat \<Rightarrow> uint64_t) \<Rightarrow> game" where
  "initial_game t =
     \<lparr>well = empty_well,
      cur_i = 0, cur_r = 0, cur_p = 0, cur_x = 0, cur_y = 0, cur_g = 0,
      bag = initial_bag,
      score = 0, level = 1, speed = INITIAL_SPEED, level_up = 0,
      paused = False, game_over = False,
      stats = replicate 7 0,
      cleared_rows = replicate 4 0,
      level_rows = 0,
      tsc = t, reads = 0\<rparr>"

text \<open>
  \<^verbatim>\<open>do { shuffle(bag, BAG_SIZE); } while (bag[0] == 4 || bag[0] == 6);\<close> The loop
  need not end (that depends on the counter readings), so it returns an option.
\<close>

partial_function (option) first_shuffle ::
    "(nat \<Rightarrow> uint64_t) \<Rightarrow> nat \<Rightarrow> uint8_t list \<Rightarrow> (uint8_t list \<times> nat) option" where
  "first_shuffle t n b =
     (case shuffle t n b BAG_SIZE of
        (b', n') \<Rightarrow>
          if b' ! 0 = 4 \<or> b' ! 0 = 6 then first_shuffle t n' b' else Some (b', n'))"

definition init_game :: "(nat \<Rightarrow> uint64_t) \<Rightarrow> game option" where
  "init_game t =
     (case first_shuffle t 0 (bag (initial_game t)) of
        None \<Rightarrow> None
      | Some (b, n) \<Rightarrow> Some (ghost (spawn ((initial_game t)\<lparr>bag := b, reads := n\<rparr>))))"

subsection \<open>Some concrete states\<close>

text \<open>
  The state at the start of a game with a counter that always reads 0 (the well is
  empty, the active piece is the I piece at the origin), and the same state with every
  cell of the well occupied.
\<close>

definition demo_game :: game where
  "demo_game = initial_game (\<lambda>n. 0)"

definition blocked_game :: game where
  "blocked_game = demo_game\<lparr>well := replicate 22 (replicate 10 1)\<rparr>"

subsection \<open>Resting places and a well with a ledge\<close>

text \<open>
  The property that the specification gives for the ghost: \<open>ys\<close>, at or below the
  piece's \<open>y\<close>, is a place where the piece does not collide and from where it cannot
  move one row down.
\<close>

definition resting_place :: "well_t \<Rightarrow> uint8_t \<Rightarrow> uint8_t \<Rightarrow> int8_t \<Rightarrow> int8_t \<Rightarrow> int8_t \<Rightarrow> bool" where
  "resting_place w i r x y ys \<longleftrightarrow>
     sint y \<le> sint ys \<and> \<not> collide w i r x ys \<and> collide w i r x (ys + 1)"

text \<open>
  A well that is empty but for one cell at row 10, column 4, and the game with the O
  piece at \<open>x = 3\<close>, \<open>y = 0\<close> above it.
\<close>

definition ledge_well :: well_t where
  "ledge_well =
     replicate 10 (replicate 10 0) @ [[0, 0, 0, 0, 1, 0, 0, 0, 0, 0]] @
     replicate 11 (replicate 10 0)"

definition ledge_game :: game where
  "ledge_game = demo_game\<lparr>well := ledge_well, cur_i := 3, cur_x := 3\<rparr>"

subsection \<open>Full rows, and a well with two of them\<close>

text \<open>
  A row is full when its 10 cells are nonzero; \<open>full_rows\<close> lists the full rows from
  the top. A row is empty when all its cells are zero.
\<close>

definition full_row :: "well_t \<Rightarrow> nat \<Rightarrow> bool" where
  "full_row w y \<longleftrightarrow> list_all (\<lambda>x. w ! y ! x \<noteq> 0) [0..<10]"

definition full_rows :: "well_t \<Rightarrow> nat list" where
  "full_rows w = filter (full_row w) [0..<22]"

definition empty_row :: "uint8_t list \<Rightarrow> bool" where
  "empty_row row \<longleftrightarrow> list_all (\<lambda>c. c = 0) row"

text \<open>
  A well whose rows 10 and 20 are full, whose row 15 has one occupied cell and whose
  other rows are empty, and a game with that well and the two full rows recorded.
\<close>

definition gap_well :: well_t where
  "gap_well =
     replicate 10 (replicate 10 0) @ [replicate 10 1] @
     replicate 4 (replicate 10 0) @ [[0, 0, 0, 0, 0, 0, 0, 2, 0, 0]] @
     replicate 4 (replicate 10 0) @ [replicate 10 1] @ [replicate 10 0]"

definition gap_game :: game where
  "gap_game = demo_game\<lparr>well := gap_well, cleared_rows := [10, 20, 0, 0]\<rparr>"

subsection \<open>When gravity is blocked, and a well with a full bottom row\<close>

text \<open>
  The condition under which \<^verbatim>\<open>update\<close> takes its game-over branch: the gravity move
  fails while \<^verbatim>\<open>current.y\<close> is 0.
\<close>

definition gravity_blocked :: "game \<Rightarrow> bool" where
  "gravity_blocked s \<longleftrightarrow> \<not> fst (move s 0 1) \<and> cur_y s = 0"

text \<open>
  A well whose bottom row is full and whose other rows are empty, and a game at level
  \<open>l\<close> with that well, 9 rows already counted towards the next level, and the I piece
  at the origin.
\<close>

definition floor_well :: well_t where
  "floor_well = replicate 21 (replicate 10 0) @ [replicate 10 1]"

definition row_game :: "uint32_t \<Rightarrow> game" where
  "row_game l = demo_game\<lparr>well := floor_well, level := l, level_rows := 9\<rparr>"

subsection \<open>Permutations of the kinds, and dealing\<close>

text \<open>A bag is in order when it is a permutation of the seven kind indices 0..6.\<close>

definition bag_ok :: "uint8_t list \<Rightarrow> bool" where
  "bag_ok b \<longleftrightarrow> mset b = mset initial_bag"

text \<open>
  \<open>deal n s\<close> calls \<^verbatim>\<open>spawn\<close> \<open>n\<close> times from \<open>s\<close> and returns the kinds dealt
  (\<^verbatim>\<open>current.i\<close> after each call), in order, with the final state.
\<close>

fun deal :: "nat \<Rightarrow> game \<Rightarrow> uint8_t list \<times> game" where
  "deal 0 s = ([], s)"
| "deal (Suc n) s =
     (case deal n (spawn s) of (ks, s') \<Rightarrow> (cur_i (spawn s) # ks, s'))"

subsection \<open>Collision: proofs\<close>

lemma collide_loop_iff:
  "collide_loop w i r x y yy xx \<longleftrightarrow>
     (yy < 4 \<and> (\<exists>xx'. xx \<le> xx' \<and> xx' < 4 \<and> collide_cell w i r x y yy xx')) \<or>
     (\<exists>yy' xx'. yy < yy' \<and> yy' < 4 \<and> xx' < 4 \<and> collide_cell w i r x y yy' xx')"
proof (induction w i r x y yy xx rule: collide_loop.induct)
  case (1 w i r x y yy xx)
  show ?case
  proof (cases "yy < 4")
    case False
    then show ?thesis
      by (subst collide_loop.simps) auto
  next
    case row: True
    show ?thesis
    proof (cases "xx < 4")
      case False
      have "collide_loop w i r x y yy xx = collide_loop w i r x y (yy + 1) 0"
        using row False by (subst collide_loop.simps) simp
      also have "\<dots> \<longleftrightarrow>
          (yy + 1 < 4 \<and> (\<exists>xx'. 0 \<le> xx' \<and> xx' < 4 \<and> collide_cell w i r x y (yy + 1) xx')) \<or>
          (\<exists>yy' xx'. yy + 1 < yy' \<and> yy' < 4 \<and> xx' < 4 \<and> collide_cell w i r x y yy' xx')"
        using "1.IH"(2) [OF row False] .
      also have "\<dots> \<longleftrightarrow>
          (\<exists>yy' xx'. yy < yy' \<and> yy' < 4 \<and> xx' < 4 \<and> collide_cell w i r x y yy' xx')"
        (is "?L \<longleftrightarrow> ?R")
      proof
        assume ?L
        then show ?R by (metis Suc_eq_plus1 Suc_lessD lessI)
      next
        assume ?R
        then obtain yy' xx' where h: "yy < yy'" "yy' < 4" "xx' < 4" "collide_cell w i r x y yy' xx'"
          by blast
        show ?L
        proof (cases "yy' = yy + 1")
          case True
          with h show ?thesis by auto
        next
          case False
          with h have "yy + 1 < yy'" by simp
          with h show ?thesis by blast
        qed
      qed
      finally show ?thesis using False by auto
    next
      case col: True
      show ?thesis
      proof (cases "collide_cell w i r x y yy xx")
        case True
        then show ?thesis
          using row col by (subst collide_loop.simps) auto
      next
        case False
        have "collide_loop w i r x y yy xx = collide_loop w i r x y yy (xx + 1)"
          using row col False by (subst collide_loop.simps) simp
        also have "\<dots> \<longleftrightarrow>
            (yy < 4 \<and> (\<exists>xx'. xx + 1 \<le> xx' \<and> xx' < 4 \<and> collide_cell w i r x y yy xx')) \<or>
            (\<exists>yy' xx'. yy < yy' \<and> yy' < 4 \<and> xx' < 4 \<and> collide_cell w i r x y yy' xx')"
          using "1.IH"(1) [OF row col False] .
        also have "(\<exists>xx'. xx + 1 \<le> xx' \<and> xx' < 4 \<and> collide_cell w i r x y yy xx') \<longleftrightarrow>
            (\<exists>xx'. xx \<le> xx' \<and> xx' < 4 \<and> collide_cell w i r x y yy xx')"
          using False by (metis Suc_eq_plus1 Suc_leD Suc_leI le_neq_implies_less)
        finally show ?thesis .
      qed
    qed
  qed
qed

lemma collide_iff:
  "collide w i r x y \<longleftrightarrow> (\<exists>yy<4. \<exists>xx<4. collide_cell w i r x y yy xx)"
proof -
  have "collide w i r x y \<longleftrightarrow>
      (\<exists>xx'. xx' < 4 \<and> collide_cell w i r x y 0 xx') \<or>
      (\<exists>yy' xx'. 0 < yy' \<and> yy' < 4 \<and> xx' < 4 \<and> collide_cell w i r x y yy' xx')"
    unfolding collide_def by (subst collide_loop_iff) simp
  also have "\<dots> \<longleftrightarrow> (\<exists>yy<4. \<exists>xx<4. collide_cell w i r x y yy xx)"
    by (metis gr0I zero_less_numeral)
  finally show ?thesis .
qed

lemma upt_0_4: "[0..<4] = [0, 1, 2, 3]"
  by (simp add: upt_conv_Cons)

lemma ex_less_4: "(\<exists>n<4. P n) \<longleftrightarrow> P 0 \<or> P 1 \<or> P 2 \<or> P (3::nat)"
proof -
  have "{..<4::nat} = {0, 1, 2, 3}" by auto
  then show ?thesis by (metis (no_types, lifting) insert_iff empty_iff lessThan_iff)
qed

text \<open>
  C1. As the claim words it, \<^verbatim>\<open>collide\<close> has no check against the top of the well. The
  source has one (\<^verbatim>\<open>y + yy < 0\<close>): in the empty well, the J piece in rotation 0 at
  \<open>x = 3\<close>, \<open>y = -1\<close> has its cell \<open>(yy, xx) = (0, 0)\<close> at row \<open>-1\<close>, inside the
  horizontal bounds, above the bottom and on no occupied cell, and \<^verbatim>\<open>collide\<close> returns
  true.
\<close>

theorem collide_top_bound_counterexample:
  "collide empty_well 1 0 3 (- 1) \<and> \<not> collide_spec empty_well 1 0 3 (- 1)"
proof
  have "collide_cell empty_well 1 0 3 (- 1) 0 0"
    by (simp add: collide_cell_def tetris_cell_def TETRIS_def)
  then show "collide empty_well 1 0 3 (- 1)"
    unfolding collide_iff by (intro exI [of _ 0] conjI) simp_all
next
  show "\<not> collide_spec empty_well 1 0 3 (- 1)"
    by (simp add: collide_spec_def collide_spec_cell_def tetris_cell_def TETRIS_def
        empty_well_def upt_0_4 WELL_WIDTH_def WELL_HEIGHT_def)
qed

text \<open>
  C1, amended. For every kind \<open>i\<close>, rotation \<open>r\<close> and coordinates \<open>(x, y)\<close>,
  \<^verbatim>\<open>collide(i, r, x, y)\<close> returns true if and only if some nonzero cell \<open>(yy, xx)\<close> of
  the catalog entry \<open>(i, r)\<close> maps to a board coordinate \<open>(x + xx, y + yy)\<close> that is
  out of the horizontal bounds, above the top bound (negative \<open>y + yy\<close>), at or below
  the bottom bound, or on a nonzero cell of the well.
\<close>

theorem collide_iff_some_cell_collides:
  "collide w i r x y \<longleftrightarrow>
     (\<exists>yy<4. \<exists>xx<4. tetris_cell i r yy xx \<noteq> 0 \<and>
        (sint x + int xx < 0 \<or> 10 \<le> sint x + int xx \<or>
         sint y + int yy < 0 \<or> 22 \<le> sint y + int yy \<or>
         w ! nat (sint y + int yy) ! nat (sint x + int xx) \<noteq> 0))"
  by (simp add: collide_iff collide_cell_def WELL_WIDTH_def WELL_HEIGHT_def)

text \<open>
  The O piece in the empty well: at \<open>y = 20\<close> its lower cells are at row 22 and it
  collides, at \<open>y = 19\<close> it does not.
\<close>

theorem collide_iff_some_cell_collides_witness:
  "collide empty_well 3 0 3 20 \<and> \<not> collide empty_well 3 0 3 19"
proof -
  have a: "tetris_cell 3 0 2 1 \<noteq> 0"
    by (simp add: tetris_cell_def TETRIS_def)
  have "collide empty_well 3 0 3 20"
    unfolding collide_iff_some_cell_collides [of empty_well 3 0 3 20] using a
    by (intro exI [of _ 2] conjI exI [of _ 1]) simp_all
  moreover have "\<not> collide empty_well 3 0 3 19"
    unfolding collide_iff_some_cell_collides [of empty_well 3 0 3 19]
    by (simp add: tetris_cell_def TETRIS_def empty_well_def ex_less_4)
  ultimately show ?thesis ..
qed

lemma collide_unfold:
  "collide w i r x y \<longleftrightarrow>
     collide_cell w i r x y 0 0 \<or> collide_cell w i r x y 0 1 \<or>
     collide_cell w i r x y 0 2 \<or> collide_cell w i r x y 0 3 \<or>
     collide_cell w i r x y 1 0 \<or> collide_cell w i r x y 1 1 \<or>
     collide_cell w i r x y 1 2 \<or> collide_cell w i r x y 1 3 \<or>
     collide_cell w i r x y 2 0 \<or> collide_cell w i r x y 2 1 \<or>
     collide_cell w i r x y 2 2 \<or> collide_cell w i r x y 2 3 \<or>
     collide_cell w i r x y 3 0 \<or> collide_cell w i r x y 3 1 \<or>
     collide_cell w i r x y 3 2 \<or> collide_cell w i r x y 3 3"
  unfolding collide_iff ex_less_4 by blast

lemmas collide_eval = collide_unfold collide_cell_def tetris_cell_def TETRIS_def
  WELL_WIDTH_def WELL_HEIGHT_def

subsection \<open>Moving and rotating\<close>

text \<open>
  C7. In a state that is not game over, \<^verbatim>\<open>move(dx, dy)\<close> tests \<^verbatim>\<open>collide\<close> at
  \<open>(x + dx, y + dy)\<close> (sums of \<^verbatim>\<open>int8_t\<close>) with the current kind and rotation: if
  that collides it returns false and the whole state is unchanged, otherwise it returns
  true and only the position changes, by \<open>(dx, dy)\<close>. \<^verbatim>\<open>rotate\<close> tests \<^verbatim>\<open>collide\<close>
  at the unchanged \<open>(x, y)\<close> with the rotation \<open>r' = (r + 1) mod 4\<close>, with no other
  position tried: if that collides it returns false and the state is unchanged,
  otherwise it returns true and only the rotation changes, to \<open>r'\<close>.
\<close>

theorem move_rotate_contract:
  assumes "\<not> game_over s"
  shows "move s dx dy =
           (if collide (well s) (cur_i s) (cur_r s) (cur_x s + dx) (cur_y s + dy) then (False, s)
            else (True, s\<lparr>cur_x := cur_x s + dx, cur_y := cur_y s + dy\<rparr>)) \<and>
         (\<exists>r'. unat r' = (unat (cur_r s) + 1) mod 4 \<and>
            rotate_piece s =
              (if collide (well s) (cur_i s) r' (cur_x s) (cur_y s) then (False, s)
               else (True, s\<lparr>cur_r := r'\<rparr>)))"
proof
  show "move s dx dy =
           (if collide (well s) (cur_i s) (cur_r s) (cur_x s + dx) (cur_y s + dy) then (False, s)
            else (True, s\<lparr>cur_x := cur_x s + dx, cur_y := cur_y s + dy\<rparr>))"
    using assms by (simp add: move_def)
next
  let ?r = "word_of_int ((uint (cur_r s) + 1) mod 4) :: uint8_t"
  have "uint ?r = (uint (cur_r s) + 1) mod 4"
    by (simp add: uint_word_of_int take_bit_eq_mod)
  then have "int (unat ?r) = int ((unat (cur_r s) + 1) mod 4)"
    by (simp add: zmod_int add.commute)
  then have "unat ?r = (unat (cur_r s) + 1) mod 4"
    by (simp only: of_nat_eq_iff)
  moreover have "rotate_piece s =
      (if collide (well s) (cur_i s) ?r (cur_x s) (cur_y s) then (False, s)
       else (True, s\<lparr>cur_r := ?r\<rparr>))"
    using assms by (simp add: rotate_piece_def Let_def)
  ultimately show "\<exists>r'. unat r' = (unat (cur_r s) + 1) mod 4 \<and>
            rotate_piece s =
              (if collide (well s) (cur_i s) r' (cur_x s) (cur_y s) then (False, s)
               else (True, s\<lparr>cur_r := r'\<rparr>))"
    by blast
qed

text \<open>
  In the empty well the I piece at the origin moves right but not left, and rotates;
  at \<open>y = 20\<close> its vertical rotation would pass the bottom and is refused.
\<close>

theorem move_rotate_contract_witness:
  "\<not> game_over demo_game \<and>
   move demo_game 1 0 = (True, demo_game\<lparr>cur_x := 1, cur_y := 0\<rparr>) \<and>
   move demo_game (- 1) 0 = (False, demo_game) \<and>
   rotate_piece demo_game = (True, demo_game\<lparr>cur_r := 1\<rparr>) \<and>
   rotate_piece (demo_game\<lparr>cur_x := 7\<rparr>) = (True, demo_game\<lparr>cur_x := 7, cur_r := 1\<rparr>) \<and>
   rotate_piece (demo_game\<lparr>cur_y := 20\<rparr>) = (False, demo_game\<lparr>cur_y := 20\<rparr>)"
proof -
  have g: "\<not> game_over demo_game"
    by (simp add: demo_game_def initial_game_def)
  have m1: "move demo_game 1 0 = (True, demo_game\<lparr>cur_x := 1, cur_y := 0\<rparr>)"
    using move_rotate_contract [OF g, of 1 0]
    by (simp add: demo_game_def initial_game_def collide_eval empty_well_def)
  have m2: "move demo_game (- 1) 0 = (False, demo_game)"
    using move_rotate_contract [OF g, of "- 1" 0]
    by (simp add: demo_game_def initial_game_def collide_eval empty_well_def)
  have r1: "rotate_piece demo_game = (True, demo_game\<lparr>cur_r := 1\<rparr>)"
    by (simp add: demo_game_def rotate_piece_def initial_game_def collide_eval empty_well_def)
  have r2: "rotate_piece (demo_game\<lparr>cur_x := 7\<rparr>) = (True, demo_game\<lparr>cur_x := 7, cur_r := 1\<rparr>)"
    by (simp add: demo_game_def rotate_piece_def initial_game_def collide_eval empty_well_def)
  have r3: "rotate_piece (demo_game\<lparr>cur_y := 20\<rparr>) = (False, demo_game\<lparr>cur_y := 20\<rparr>)"
    by (simp add: demo_game_def rotate_piece_def initial_game_def collide_eval empty_well_def)
  from g m1 m2 r1 r2 r3 show ?thesis by simp
qed

subsection \<open>Game over\<close>

text \<open>
  C3. If in \<^verbatim>\<open>update\<close> the gravity move \<^verbatim>\<open>move(0, 1)\<close> fails while
  \<^verbatim>\<open>current.y\<close> is 0, then \<^verbatim>\<open>update\<close> sets \<^verbatim>\<open>game_over\<close> and returns with nothing
  else changed (no lock, no spawn). In a state with \<^verbatim>\<open>game_over\<close> set, \<^verbatim>\<open>move\<close> and
  \<^verbatim>\<open>rotate\<close> return false, and \<^verbatim>\<open>move\<close>, \<^verbatim>\<open>rotate\<close>, \<^verbatim>\<open>soft_drop\<close> and
  \<^verbatim>\<open>drop\<close> leave the whole state unchanged.
\<close>

theorem game_over_terminal:
  "(\<not> fst (move s 0 1) \<and> cur_y s = 0 \<longrightarrow> update s = Some (s\<lparr>game_over := True\<rparr>)) \<and>
   (game_over s \<longrightarrow>
      move s dx dy = (False, s) \<and> rotate_piece s = (False, s) \<and>
      soft_drop s = s \<and> drop_piece s = Some s)"
  by (auto simp: update_def gravity_def move_def rotate_piece_def soft_drop_def drop_piece_def
      split: if_splits)

text \<open>
  With every cell of the well occupied the piece at \<open>y = 0\<close> cannot fall: the update
  ends the game, and no operation changes the state afterwards.
\<close>

theorem game_over_terminal_witness:
  "\<not> fst (move blocked_game 0 1) \<and> cur_y blocked_game = 0 \<and>
   update blocked_game = Some (blocked_game\<lparr>game_over := True\<rparr>) \<and>
   game_over (blocked_game\<lparr>game_over := True\<rparr>) \<and>
   move (blocked_game\<lparr>game_over := True\<rparr>) 1 0 = (False, blocked_game\<lparr>game_over := True\<rparr>) \<and>
   rotate_piece (blocked_game\<lparr>game_over := True\<rparr>) = (False, blocked_game\<lparr>game_over := True\<rparr>) \<and>
   soft_drop (blocked_game\<lparr>game_over := True\<rparr>) = blocked_game\<lparr>game_over := True\<rparr> \<and>
   drop_piece (blocked_game\<lparr>game_over := True\<rparr>) = Some (blocked_game\<lparr>game_over := True\<rparr>)"
proof -
  have a: "\<not> fst (move blocked_game 0 1)"
    by (simp add: blocked_game_def demo_game_def initial_game_def move_def collide_eval)
  have b: "cur_y blocked_game = 0"
    by (simp add: blocked_game_def demo_game_def initial_game_def)
  have c: "game_over (blocked_game\<lparr>game_over := True\<rparr>)"
    by simp
  show ?thesis
    using a b c game_over_terminal [of blocked_game]
      game_over_terminal [of "blocked_game\<lparr>game_over := True\<rparr>" 1 0]
    by simp
qed

subsection \<open>The ghost\<close>

lemma sint_eq_iff: "sint (a :: int8_t) = sint b \<longleftrightarrow> a = b"
  by (auto intro: signed_word_eqI)

lemma sint_succ: "sint (y :: int8_t) < 22 \<Longrightarrow> sint (y + 1) = sint y + 1"
  using sint_ge [of y] by (simp add: sint_word_ariths signed_take_bit_int_eq_self)

lemma sint_pred: "- 128 < sint (y :: int8_t) \<Longrightarrow> sint (y - 1) = sint y - 1"
  using sint_lt [of y] by (simp add: sint_word_ariths signed_take_bit_int_eq_self)

lemma ghost_loop_first:
  assumes "sint y \<le> sint y'" "sint y' < 22" "collide w i r x y'"
  shows "collide w i r x (ghost_loop w i r x y) \<and>
         sint y \<le> sint (ghost_loop w i r x y) \<and>
         sint (ghost_loop w i r x y) \<le> sint y' \<and>
         (\<forall>z. sint y \<le> sint z \<and> sint z < sint (ghost_loop w i r x y) \<longrightarrow> \<not> collide w i r x z)"
  using assms
proof (induction w i r x y rule: ghost_loop.induct)
  case (1 w i r x y)
  have lt: "sint y < WELL_HEIGHT"
    using "1.prems" by (simp add: WELL_HEIGHT_def)
  show ?case
  proof (cases "collide w i r x y")
    case True
    then have "ghost_loop w i r x y = y"
      using lt by (subst ghost_loop.simps) simp
    with True "1.prems" show ?thesis by auto
  next
    case False
    have eq: "ghost_loop w i r x y = ghost_loop w i r x (y + 1)"
      using lt False by (subst ghost_loop.simps) simp
    have s: "sint (y + 1) = sint y + 1"
      using "1.prems" by (intro sint_succ) simp
    have "y' \<noteq> y"
      using False "1.prems" by auto
    then have "sint y' \<noteq> sint y"
      by (simp add: sint_eq_iff)
    then have le: "sint (y + 1) \<le> sint y'"
      using s "1.prems" by simp
    note ih = "1.IH" [OF lt False le "1.prems"(2,3)]
    show ?thesis
    proof (intro conjI allI impI)
      show "collide w i r x (ghost_loop w i r x y)"
        using ih by (simp add: eq)
      show "sint y \<le> sint (ghost_loop w i r x y)"
        using ih s by (simp add: eq)
      show "sint (ghost_loop w i r x y) \<le> sint y'"
        using ih by (simp add: eq)
    next
      fix z :: int8_t
      assume z: "sint y \<le> sint z \<and> sint z < sint (ghost_loop w i r x y)"
      show "\<not> collide w i r x z"
      proof (cases "sint z = sint y")
        case True
        then have "z = y" by (simp add: sint_eq_iff)
        with False show ?thesis by simp
      next
        case False
        with z s have "sint (y + 1) \<le> sint z \<and> sint z < sint (ghost_loop w i r x (y + 1))"
          by (simp add: eq)
        with ih show ?thesis by blast
      qed
    qed
  qed
qed

text \<open>
  C4, amended. For every state whose active piece does not collide at its \<open>y\<close> and
  collides at some larger \<open>y\<close> within the well height, \<^verbatim>\<open>ghost\<close> changes only
  \<^verbatim>\<open>current.g\<close> and sets it to the smallest \<open>y* \<ge> y\<close> such that \<^verbatim>\<open>collide\<close> is false
  at \<open>y*\<close> and true at \<open>y* + 1\<close>.
\<close>

theorem ghost_first_resting_place:
  assumes free: "\<not> collide (well s) (cur_i s) (cur_r s) (cur_x s) (cur_y s)"
    and below: "\<exists>y'. sint (cur_y s) < sint y' \<and> sint y' < 22 \<and>
                  collide (well s) (cur_i s) (cur_r s) (cur_x s) y'"
  shows "ghost s = s\<lparr>cur_g := cur_g (ghost s)\<rparr> \<and>
         resting_place (well s) (cur_i s) (cur_r s) (cur_x s) (cur_y s) (cur_g (ghost s)) \<and>
         (\<forall>ys. resting_place (well s) (cur_i s) (cur_r s) (cur_x s) (cur_y s) ys \<longrightarrow>
               sint (cur_g (ghost s)) \<le> sint ys)"
proof -
  let ?c = "collide (well s) (cur_i s) (cur_r s) (cur_x s)"
  let ?f = "ghost_loop (well s) (cur_i s) (cur_r s) (cur_x s) (cur_y s)"
  from below obtain y' where "sint (cur_y s) < sint y'" and "sint y' < 22" and "?c y'"
    by blast
  then have y': "sint (cur_y s) \<le> sint y'" "sint y' < 22" "?c y'"
    by simp_all
  note first = ghost_loop_first [OF y']
  have g: "cur_g (ghost s) = ?f - 1"
    by (simp add: ghost_def)
  have "?f \<noteq> cur_y s"
    using first free by auto
  then have "sint ?f \<noteq> sint (cur_y s)"
    by (simp add: sint_eq_iff)
  then have gt: "sint (cur_y s) < sint ?f"
    using first by simp
  have "- 128 \<le> sint (cur_y s)"
    using sint_ge [of "cur_y s"] by simp
  then have p: "sint (?f - 1) = sint ?f - 1"
    using gt by (intro sint_pred) simp
  have rest: "resting_place (well s) (cur_i s) (cur_r s) (cur_x s) (cur_y s) (?f - 1)"
    unfolding resting_place_def using first gt p by simp
  have least: "sint (?f - 1) \<le> sint ys"
    if "resting_place (well s) (cur_i s) (cur_r s) (cur_x s) (cur_y s) ys" for ys
  proof (rule ccontr)
    assume "\<not> sint (?f - 1) \<le> sint ys"
    then have lt: "sint ys < sint ?f - 1"
      using p by simp
    have "sint ?f \<le> sint y'"
      using first by simp
    then have "sint ys < 22"
      using lt y' by simp
    then have "sint (ys + 1) = sint ys + 1"
      by (rule sint_succ)
    then have "sint (cur_y s) \<le> sint (ys + 1) \<and> sint (ys + 1) < sint ?f"
      using that lt by (simp add: resting_place_def)
    then have "\<not> ?c (ys + 1)"
      using first by blast
    with that show False
      by (simp add: resting_place_def)
  qed
  show ?thesis
    using rest least by (simp add: g) (simp add: ghost_def)
qed

lemma nth_ledge:
  "n < 22 \<Longrightarrow> ledge_well ! n = (if n = 10 then [0, 0, 0, 0, 1, 0, 0, 0, 0, 0] else replicate 10 0)"
  by (auto simp: ledge_well_def nth_append)

text \<open>
  C4. The claim calls that \<open>y*\<close> unique. It is not: with one occupied cell at row 10,
  column 4, the O piece at \<open>x = 3\<close>, \<open>y = 0\<close> rests on that cell at \<open>y* = 7\<close>, where
  \<^verbatim>\<open>ghost\<close> puts it, and it would also rest on the floor at \<open>y* = 19\<close>.
\<close>

theorem ghost_unique_counterexample:
  "\<not> collide (well ledge_game) (cur_i ledge_game) (cur_r ledge_game) (cur_x ledge_game) (cur_y ledge_game) \<and>
   sint (cur_y ledge_game) < sint (8 :: int8_t) \<and> sint (8 :: int8_t) < 22 \<and>
   collide (well ledge_game) (cur_i ledge_game) (cur_r ledge_game) (cur_x ledge_game) 8 \<and>
   cur_g (ghost ledge_game) = 7 \<and>
   resting_place (well ledge_game) (cur_i ledge_game) (cur_r ledge_game) (cur_x ledge_game) (cur_y ledge_game) 7 \<and>
   resting_place (well ledge_game) (cur_i ledge_game) (cur_r ledge_game) (cur_x ledge_game) (cur_y ledge_game) 19 \<and>
   (7 :: int8_t) \<noteq> 19"
  by (simp add: ledge_game_def demo_game_def initial_game_def resting_place_def
      ghost_def ghost_loop.simps collide_eval nth_ledge)

text \<open>
  In the same state the hypotheses hold, the ghost is a resting place, and it is not
  below the other resting place, 19.
\<close>

theorem ghost_first_resting_place_witness:
  "\<not> collide (well ledge_game) (cur_i ledge_game) (cur_r ledge_game) (cur_x ledge_game) (cur_y ledge_game) \<and>
   sint (cur_y ledge_game) < sint (8 :: int8_t) \<and> sint (8 :: int8_t) < 22 \<and>
   collide (well ledge_game) (cur_i ledge_game) (cur_r ledge_game) (cur_x ledge_game) 8 \<and>
   resting_place (well ledge_game) (cur_i ledge_game) (cur_r ledge_game) (cur_x ledge_game)
     (cur_y ledge_game) (cur_g (ghost ledge_game)) \<and>
   sint (cur_g (ghost ledge_game)) \<le> sint (19 :: int8_t)"
proof -
  let ?c = "collide (well ledge_game) (cur_i ledge_game) (cur_r ledge_game) (cur_x ledge_game)"
  have free: "\<not> ?c (cur_y ledge_game)"
    by (simp add: ledge_game_def demo_game_def initial_game_def collide_eval nth_ledge)
  have hit: "sint (cur_y ledge_game) < sint (8 :: int8_t) \<and> sint (8 :: int8_t) < 22 \<and> ?c 8"
    by (simp add: ledge_game_def demo_game_def initial_game_def collide_eval nth_ledge)
  then have below: "\<exists>y'. sint (cur_y ledge_game) < sint y' \<and> sint y' < 22 \<and> ?c y'"
    by blast
  have floor: "resting_place (well ledge_game) (cur_i ledge_game) (cur_r ledge_game)
      (cur_x ledge_game) (cur_y ledge_game) 19"
    by (simp add: ledge_game_def demo_game_def initial_game_def resting_place_def
        collide_eval nth_ledge)
  show ?thesis
    using ghost_first_resting_place [OF free below] free hit floor by blast
qed

subsection \<open>Clearing rows\<close>

lemma wf_well_nth: "wf_well w \<Longrightarrow> n < 22 \<Longrightarrow> length (w ! n) = 10"
  by (simp add: wf_well_def list_all_length)

lemma wf_well_length: "wf_well w \<Longrightarrow> length w = 22"
  by (simp add: wf_well_def)

lemma wf_well_update: "wf_well w \<Longrightarrow> length row = 10 \<Longrightarrow> wf_well (w[n := row])"
  unfolding wf_well_def list_all_length
  by (metis length_list_update nth_list_update_eq nth_list_update_neq)

lemma copy_loop_take_drop:
  assumes "y < length w" "0 < y" "x \<le> 10" "length (w ! y) = 10" "length (w ! (y - 1)) = 10"
  shows "copy_loop w y x = w[y := take x (w ! y) @ drop x (w ! (y - 1))]"
  using assms
proof (induction w y x rule: copy_loop.induct)
  case (1 w y x)
  show ?case
  proof (cases "x < 10")
    case False
    with "1.prems" have "x = 10" by simp
    with "1.prems" show ?thesis
      by (subst copy_loop.simps) (simp add: WELL_WIDTH_def)
  next
    case True
    let ?w = "w[y := (w ! y)[x := w ! (y - 1) ! x]]"
    have c: "int x < WELL_WIDTH"
      using True by (simp add: WELL_WIDTH_def)
    have row: "?w ! y = (w ! y)[x := w ! (y - 1) ! x]" and up: "?w ! (y - 1) = w ! (y - 1)"
      using "1.prems" by simp_all
    have "copy_loop w y x = copy_loop ?w y (x + 1)"
      using c by (subst copy_loop.simps) simp
    also have "\<dots> = ?w[y := take (x + 1) (?w ! y) @ drop (x + 1) (?w ! (y - 1))]"
      using "1.prems" True by (intro "1.IH" [OF c]) simp_all
    also have "take (x + 1) (?w ! y) = take x (w ! y) @ [w ! (y - 1) ! x]"
      using "1.prems" True by (simp add: row take_Suc_conv_app_nth)
    also have "(take x (w ! y) @ [w ! (y - 1) ! x]) @ drop (x + 1) (?w ! (y - 1)) =
        take x (w ! y) @ drop x (w ! (y - 1))"
      using "1.prems" True by (simp add: up Cons_nth_drop_Suc)
    finally show ?thesis by simp
  qed
qed

lemma copy_loop_row:
  assumes "wf_well w" "0 < y" "y < 22"
  shows "copy_loop w y 0 = w[y := w ! (y - 1)]"
  using assms copy_loop_take_drop [of y w 0]
  by (simp add: wf_well_nth wf_well_length)

lemma shift_loop_rows:
  assumes "wf_well w" "y < 22"
  shows "wf_well (shift_loop w y) \<and>
    (\<forall>j<22. shift_loop w y ! j = (if 0 < j \<and> j \<le> y then w ! (j - 1) else w ! j))"
  using assms
proof (induction w y rule: shift_loop.induct)
  case (1 w y)
  show ?case
  proof (cases "0 < y")
    case False
    then show ?thesis
      using "1.prems" by (subst (1 2) shift_loop.simps) simp
  next
    case True
    let ?w = "w[y := w ! (y - 1)]"
    have eq: "shift_loop w y = shift_loop ?w (y - 1)"
      using True "1.prems" by (subst shift_loop.simps) (simp add: copy_loop_row)
    have wf: "wf_well ?w"
      using "1.prems" by (simp add: wf_well_update wf_well_nth)
    have ih: "wf_well (shift_loop ?w (y - 1)) \<and>
      (\<forall>j<22. shift_loop ?w (y - 1) ! j = (if 0 < j \<and> j \<le> y - 1 then ?w ! (j - 1) else ?w ! j))"
      using "1.IH" [OF True] True "1.prems" wf by (simp add: copy_loop_row)
    show ?thesis
      unfolding eq using ih "1.prems" True
      by (auto simp: nth_list_update wf_well_length)
  qed
qed


lemma unat_of_nat_small: "n < 256 \<Longrightarrow> unat (of_nat n :: uint8_t) = n"
  by (simp add: unat_of_nat)

lemma sint_of_nat_small: "n < 128 \<Longrightarrow> sint (of_nat n :: int8_t) = int n"
proof -
  assume n: "n < 128"
  have "uint (of_nat n :: int8_t) = int n"
    using n by (simp add: uint_nat unat_of_nat)
  then show ?thesis
    using n by (simp add: sint_uint signed_take_bit_int_eq_self)
qed

lemma of_nat_small_neq_0: "0 < n \<Longrightarrow> n < 128 \<Longrightarrow> (of_nat n :: int8_t) \<noteq> 0"
proof
  assume "0 < n" "n < 128" "(of_nat n :: int8_t) = 0"
  then have "unat (of_nat n :: int8_t) = 0" by simp
  with \<open>n < 128\<close> have "n = 0" by (simp add: unat_of_nat)
  with \<open>0 < n\<close> show False by simp
qed

lemma clear_loop_two_rows:
  assumes "0 < R1" "R1 < R2" "R2 < 22"
  shows "clear_loop w [of_nat R1, of_nat R2, 0, 0] 0 =
         Some (shift_loop (shift_loop w R1) R2, [0, 0, 0, 0])"
proof -
  have r1: "(of_nat R1 :: int8_t) \<noteq> 0" "sint (of_nat R1 :: int8_t) = int R1"
    using assms by (simp_all add: of_nat_small_neq_0 sint_of_nat_small)
  have r2: "(of_nat R2 :: int8_t) \<noteq> 0" "sint (of_nat R2 :: int8_t) = int R2"
    using assms by (simp_all add: of_nat_small_neq_0 sint_of_nat_small)
  have "clear_loop w [of_nat R1, of_nat R2, 0, 0] 0 =
        clear_loop (shift_loop w R1) [0, of_nat R2, 0, 0] 1"
    using assms r1 by (subst clear_loop.simps) (simp add: WELL_HEIGHT_def)
  also have "\<dots> = clear_loop (shift_loop (shift_loop w R1) R2) [0, 0, 0, 0] (Suc (Suc 0))"
    using assms r2 by (subst clear_loop.simps) (simp add: WELL_HEIGHT_def)
  also have "\<dots> = Some (shift_loop (shift_loop w R1) R2, [0, 0, 0, 0])"
    by (subst clear_loop.simps) simp
  finally show ?thesis .
qed

lemma clear_rows_two_rows:
  assumes wf: "wf_well (well s)"
    and cr: "cleared_rows s = [of_nat R1, of_nat R2, 0, 0]"
    and r: "0 < R1" "R1 < R2" "R2 < 22"
  shows "\<exists>s'. clear_rows s = Some s' \<and>
           s' = s\<lparr>well := well s', cleared_rows := [0, 0, 0, 0]\<rparr> \<and>
           wf_well (well s') \<and>
           (\<forall>j<22. well s' ! j =
              (if j \<le> 1 then well s ! 0
               else if j \<le> R1 + 1 then well s ! (j - 2)
               else if j \<le> R2 then well s ! (j - 1)
               else well s ! j))"
proof -
  let ?w1 = "shift_loop (well s) R1"
  let ?w2 = "shift_loop ?w1 R2"
  have one: "wf_well ?w1 \<and>
      (\<forall>j<22. ?w1 ! j = (if 0 < j \<and> j \<le> R1 then well s ! (j - 1) else well s ! j))"
    using wf r by (intro shift_loop_rows) simp_all
  then have two: "wf_well ?w2 \<and>
      (\<forall>j<22. ?w2 ! j = (if 0 < j \<and> j \<le> R2 then ?w1 ! (j - 1) else ?w1 ! j))"
    using r by (intro shift_loop_rows) simp_all
  have rows: "?w2 ! j =
      (if j \<le> 1 then well s ! 0
       else if j \<le> R1 + 1 then well s ! (j - 2)
       else if j \<le> R2 then well s ! (j - 1)
       else well s ! j)" if "j < 22" for j
  proof -
    have a: "?w2 ! j = (if 0 < j \<and> j \<le> R2 then ?w1 ! (j - 1) else ?w1 ! j)"
      using two that by blast
    have b: "?w1 ! (j - 1) = (if 0 < j - 1 \<and> j - 1 \<le> R1 then well s ! (j - 1 - 1) else well s ! (j - 1))"
      using one that by simp
    have c: "?w1 ! j = (if 0 < j \<and> j \<le> R1 then well s ! (j - 1) else well s ! j)"
      using one that by blast
    show ?thesis
      unfolding a b c using r by (auto simp: numeral_2_eq_2 le_Suc_eq)
  qed
  have "clear_rows s = Some (s\<lparr>well := ?w2, cleared_rows := [0, 0, 0, 0]\<rparr>)"
    using r by (simp add: clear_rows_def cr clear_loop_two_rows)
  then show ?thesis
    using two rows by simp
qed

text \<open>
  C2, amended. For every well of 22 rows of 10 cells with \<^verbatim>\<open>cleared_rows\<close> holding
  \<open>[R1, R2, 0, 0]\<close>, \<open>0 < R1 < R2 < 22\<close> (so also when \<open>R1\<close> and \<open>R2\<close> are the only
  full rows), \<^verbatim>\<open>clear_rows\<close> changes only the well and \<^verbatim>\<open>cleared_rows\<close>: every row
  above \<open>R1\<close> moves down by 2, every row strictly between \<open>R1\<close> and \<open>R2\<close> moves down
  by 1, every row below \<open>R2\<close> is unchanged, the two topmost rows become copies of the
  old top row (so they are empty when the top row was), and all four entries of
  \<^verbatim>\<open>cleared_rows\<close> become 0.
\<close>

theorem clear_rows_two_full_rows:
  assumes "wf_well (well s)"
    and "cleared_rows s = [of_nat R1, of_nat R2, 0, 0]"
    and "0 < R1" "R1 < R2" "R2 < 22"
  shows "\<exists>s'. clear_rows s = Some s' \<and>
           s' = s\<lparr>well := well s', cleared_rows := [0, 0, 0, 0]\<rparr> \<and>
           (\<forall>j<R1. well s' ! (j + 2) = well s ! j) \<and>
           (\<forall>j. R1 < j \<and> j < R2 \<longrightarrow> well s' ! (j + 1) = well s ! j) \<and>
           (\<forall>j. R2 < j \<and> j < 22 \<longrightarrow> well s' ! j = well s ! j) \<and>
           well s' ! 0 = well s ! 0 \<and> well s' ! 1 = well s ! 0 \<and>
           (empty_row (well s ! 0) \<longrightarrow> empty_row (well s' ! 0) \<and> empty_row (well s' ! 1))"
proof -
  from clear_rows_two_rows [OF assms]
  obtain s' where s': "clear_rows s = Some s'"
      "s' = s\<lparr>well := well s', cleared_rows := [0, 0, 0, 0]\<rparr>"
    and rows: "\<And>j. j < 22 \<Longrightarrow> well s' ! j =
              (if j \<le> 1 then well s ! 0
               else if j \<le> R1 + 1 then well s ! (j - 2)
               else if j \<le> R2 then well s ! (j - 1)
               else well s ! j)"
    by blast
  have "well s' ! (j + 2) = well s ! j" if "j < R1" for j
    using rows [of "j + 2"] that assms(3-5) by simp
  moreover have "well s' ! (j + 1) = well s ! j" if "R1 < j \<and> j < R2" for j
    using rows [of "j + 1"] that assms(3-5) by simp
  moreover have "well s' ! j = well s ! j" if "R2 < j \<and> j < 22" for j
    using rows [of j] that assms(3-5) by simp
  moreover have "well s' ! 0 = well s ! 0" "well s' ! 1 = well s ! 0"
    using rows [of 0] rows [of 1] by simp_all
  ultimately show ?thesis
    using s' by (intro exI [of _ s']) simp
qed


lemma upt_0_10: "[0..<10] = [0, 1, 2, 3, 4, 5, 6, 7, 8, 9]"
  by (simp add: upt_conv_Cons)

lemma upt_0_22:
  "[0..<22] = [0, 1, 2, 3, 4, 5, 6, 7, 8, 9, 10, 11, 12, 13, 14, 15, 16, 17, 18, 19, 20, 21]"
  by (simp add: upt_conv_Cons)

lemma replicate_10: "replicate 10 c = [c, c, c, c, c, c, c, c, c, c]"
  by (simp add: numeral_eq_Suc)

lemma gap_well_rows:
  "gap_well =
    [replicate 10 0, replicate 10 0, replicate 10 0, replicate 10 0, replicate 10 0,
     replicate 10 0, replicate 10 0, replicate 10 0, replicate 10 0, replicate 10 0,
     replicate 10 1,
     replicate 10 0, replicate 10 0, replicate 10 0, replicate 10 0,
     [0, 0, 0, 0, 0, 0, 0, 2, 0, 0],
     replicate 10 0, replicate 10 0, replicate 10 0, replicate 10 0,
     replicate 10 1,
     replicate 10 0]"
  unfolding gap_well_def
  by (simp add: numeral_eq_Suc)

lemma wf_gap_well: "wf_well gap_well"
  by (simp add: gap_well_rows wf_well_def)

lemma full_rows_gap_well: "full_rows gap_well = [10, 20]"
  by (simp add: full_rows_def full_row_def upt_0_22 upt_0_10 gap_well_rows)

text \<open>
  C2. The claim moves every row above \<open>R2\<close> down by 2 and leaves every row below \<open>R1\<close>
  unchanged. With rows 10 and 20 full and one occupied cell in row 15, which is above
  \<open>R2 = 20\<close> and below \<open>R1 = 10\<close>: after \<^verbatim>\<open>clear_rows\<close> the old row 15 is neither in
  row 17 nor in row 15, it is in row 16.
\<close>

theorem clear_rows_shift_counterexample:
  "wf_well (well gap_game) \<and> full_rows (well gap_game) = [10, 20] \<and>
   cleared_rows gap_game = [10, 20, 0, 0] \<and>
   (case clear_rows gap_game of
      None \<Rightarrow> False
    | Some s' \<Rightarrow>
        well s' ! 17 \<noteq> well gap_game ! 15 \<and> well s' ! 15 \<noteq> well gap_game ! 15 \<and>
        well s' ! 16 = well gap_game ! 15)"
proof -
  have wf: "wf_well (well gap_game)" and cr: "cleared_rows gap_game = [of_nat 10, of_nat 20, 0, 0]"
    by (simp_all add: gap_game_def wf_gap_well)
  have r: "(0 :: nat) < 10" "(10 :: nat) < 20" "(20 :: nat) < 22"
    by simp_all
  from clear_rows_two_rows [OF wf cr r]
  obtain s' where s': "clear_rows gap_game = Some s'"
    and rows: "\<forall>j<22. well s' ! j =
              (if j \<le> 1 then well gap_game ! 0
               else if j \<le> 10 + 1 then well gap_game ! (j - 2)
               else if j \<le> 20 then well gap_game ! (j - 1)
               else well gap_game ! j)"
    by blast
  have "well s' ! 17 \<noteq> well gap_game ! 15"
    using rows [rule_format, of 17] by (simp add: gap_game_def gap_well_rows replicate_10)
  moreover have "well s' ! 15 \<noteq> well gap_game ! 15"
    using rows [rule_format, of 15] by (simp add: gap_game_def gap_well_rows replicate_10)
  moreover have "well s' ! 16 = well gap_game ! 15"
    using rows [rule_format, of 16] by simp
  moreover have "full_rows (well gap_game) = [10, 20]"
    by (simp add: gap_game_def full_rows_gap_well)
  moreover have "cleared_rows gap_game = [10, 20, 0, 0]"
    by (simp add: gap_game_def)
  ultimately show ?thesis
    using wf s' by simp
qed

text \<open>
  In the same game: row 9 moves to row 11, row 15 to row 16, row 21 stays, the two
  topmost rows are empty and \<^verbatim>\<open>cleared_rows\<close> is emptied.
\<close>

theorem clear_rows_two_full_rows_witness:
  "wf_well (well gap_game) \<and> cleared_rows gap_game = [of_nat 10, of_nat 20, 0, 0] \<and>
   (0 :: nat) < 10 \<and> (10 :: nat) < 20 \<and> (20 :: nat) < 22 \<and>
   (case clear_rows gap_game of
      None \<Rightarrow> False
    | Some s' \<Rightarrow>
        well s' ! 11 = well gap_game ! 9 \<and> well s' ! 16 = well gap_game ! 15 \<and>
        well s' ! 21 = well gap_game ! 21 \<and> empty_row (well s' ! 0) \<and>
        empty_row (well s' ! 1) \<and> cleared_rows s' = [0, 0, 0, 0])"
proof -
  have wf: "wf_well (well gap_game)" and cr: "cleared_rows gap_game = [of_nat 10, of_nat 20, 0, 0]"
    by (simp_all add: gap_game_def wf_gap_well)
  have top: "empty_row (well gap_game ! 0)"
    by (simp add: gap_game_def gap_well_rows empty_row_def replicate_10)
  have r: "(0 :: nat) < 10" "(10 :: nat) < 20" "(20 :: nat) < 22"
    by simp_all
  from clear_rows_two_full_rows [OF wf cr r]
  obtain s' where s': "clear_rows gap_game = Some s'"
    and eq: "s' = gap_game\<lparr>well := well s', cleared_rows := [0, 0, 0, 0]\<rparr>"
    and above: "\<forall>j<10. well s' ! (j + 2) = well gap_game ! j"
    and between: "\<forall>j. 10 < j \<and> j < 20 \<longrightarrow> well s' ! (j + 1) = well gap_game ! j"
    and below: "\<forall>j. 20 < j \<and> j < 22 \<longrightarrow> well s' ! j = well gap_game ! j"
    and empty: "empty_row (well gap_game ! 0) \<longrightarrow> empty_row (well s' ! 0) \<and> empty_row (well s' ! 1)"
    by blast
  have "cleared_rows s' = [0, 0, 0, 0]"
    by (subst eq) simp
  moreover have "well s' ! 11 = well gap_game ! 9"
    using above [rule_format, of 9] by simp
  moreover have "well s' ! 16 = well gap_game ! 15"
    using between [rule_format, of 15] by simp
  moreover have "well s' ! 21 = well gap_game ! 21"
    using below [rule_format, of 21] by simp
  ultimately show ?thesis
    using wf cr r s' top empty by simp
qed

subsection \<open>The update step: rows, score and level\<close>

lemma count_loop_filter:
  "x \<le> 10 \<Longrightarrow> count_loop w y x a = a + length (filter (\<lambda>x. w ! y ! x \<noteq> 0) [x..<10])"
proof (induction w y x a rule: count_loop.induct)
  case (1 w y x a)
  show ?case
  proof (cases "x < 10")
    case False
    with "1.prems" show ?thesis
      by (subst count_loop.simps) (simp add: WELL_WIDTH_def)
  next
    case True
    then have c: "int x < WELL_WIDTH"
      by (simp add: WELL_WIDTH_def)
    have "count_loop w y x a = count_loop w y (x + 1) (if w ! y ! x \<noteq> 0 then a + 1 else a)"
      using c by (subst count_loop.simps) simp
    also have "\<dots> = (if w ! y ! x \<noteq> 0 then a + 1 else a) +
        length (filter (\<lambda>x. w ! y ! x \<noteq> 0) [x + 1..<10])"
      using True by (intro "1.IH" [OF c]) simp
    also have "\<dots> = a + length (filter (\<lambda>x. w ! y ! x \<noteq> 0) [x..<10])"
      using True by (simp add: upt_conv_Cons)
    finally show ?thesis .
  qed
qed

lemma length_filter_eq_iff: "length (filter P xs) = length xs \<longleftrightarrow> list_all P xs"
proof (induction xs)
  case Nil
  show ?case by simp
next
  case (Cons x xs)
  show ?case
  proof (cases "P x")
    case True
    with Cons show ?thesis by simp
  next
    case False
    have "length (filter P xs) < Suc (length xs)"
      by (rule le_imp_less_Suc) (rule length_filter_le)
    then have "length (filter P xs) \<noteq> Suc (length xs)"
      by (rule less_imp_neq)
    with False show ?thesis by simp
  qed
qed

lemma count_loop_full: "int (count_loop w y 0 0) = WELL_WIDTH \<longleftrightarrow> full_row w y"
proof -
  have "count_loop w y 0 0 = length (filter (\<lambda>x. w ! y ! x \<noteq> 0) [0..<10])"
    by (simp add: count_loop_filter)
  moreover have "length (filter (\<lambda>x. w ! y ! x \<noteq> 0) [0..<10]) = length [0..<10] \<longleftrightarrow>
      list_all (\<lambda>x. w ! y ! x \<noteq> 0) [0..<10]"
    by (rule length_filter_eq_iff)
  ultimately show ?thesis
    by (simp add: full_row_def WELL_WIDTH_def)
qed

lemma scan_loop_rows:
  assumes "scan_loop w cr y i rows = Some (cr', rows')" "y \<le> 22" "i \<le> 4"
  shows "rows' = rows + length (filter (full_row w) [y..<22]) \<and>
         i + length (filter (full_row w) [y..<22]) \<le> 4 \<and> length cr' = length cr"
  using assms
proof (induction w cr y i rows rule: scan_loop.induct)
  case (1 w cr y i rows)
  show ?case
  proof (cases "y < 22")
    case False
    with "1.prems" have "y = 22" by simp
    with "1.prems" show ?thesis
      by (subst (asm) scan_loop.simps) (simp add: WELL_HEIGHT_def)
  next
    case True
    then have c: "int y < WELL_HEIGHT"
      by (simp add: WELL_HEIGHT_def)
    have u: "[y..<22] = y # [y + 1..<22]"
      using True by (simp add: upt_conv_Cons)
    show ?thesis
    proof (cases "full_row w y")
      case False
      then have n: "int (count_loop w y 0 0) \<noteq> WELL_WIDTH"
        by (simp add: count_loop_full)
      have "scan_loop w cr (y + 1) i rows = Some (cr', rows')"
        using "1.prems"(1) c n by (subst (asm) scan_loop.simps) simp
      then show ?thesis
        using "1.IH"(1) [OF c n] True False "1.prems"(3) by (simp add: u)
    next
      case full: True
      then have n: "\<not> int (count_loop w y 0 0) \<noteq> WELL_WIDTH"
        by (simp add: count_loop_full)
      have i: "i < 4"
        using "1.prems"(1) c n by (subst (asm) scan_loop.simps) (simp split: if_splits)
      have "scan_loop w (cr[i := of_nat y]) (y + 1) (i + 1) (rows + 1) = Some (cr', rows')"
        using "1.prems"(1) c n i by (subst (asm) scan_loop.simps) simp
      then show ?thesis
        using "1.IH"(2) [OF c n i] True full i by (simp add: u)
    qed
  qed
qed

lemma row_clearing_rows:
  assumes "row_clearing s = Some (k, s')"
  shows "k = length (full_rows (well s)) \<and> k \<le> 4 \<and> (\<exists>cr. s' = s\<lparr>cleared_rows := cr\<rparr>)"
proof -
  from assms obtain cr where scan: "scan_loop (well s) (cleared_rows s) 0 0 0 = Some (cr, k)"
    and s': "s' = s\<lparr>cleared_rows := cr\<rparr>"
    by (auto simp: row_clearing_def split: option.splits)
  from scan_loop_rows [OF scan] s' show ?thesis
    by (auto simp: full_rows_def)
qed

lemma move_fields:
  "move s dx dy = (b, s') \<Longrightarrow> \<exists>x y. s' = s\<lparr>cur_x := x, cur_y := y\<rparr>"
proof (cases b)
  case True
  assume "move s dx dy = (b, s')"
  with True have "s' = s\<lparr>cur_x := cur_x s + dx, cur_y := cur_y s + dy\<rparr>"
    by (auto simp: move_def split: if_splits)
  then show ?thesis by blast
next
  case False
  assume "move s dx dy = (b, s')"
  with False have "s' = s"
    by (auto simp: move_def split: if_splits)
  then have "s' = s\<lparr>cur_x := cur_x s, cur_y := cur_y s\<rparr>" by simp
  then show ?thesis by blast
qed

lemma lock_fields: "lock s = Some s' \<Longrightarrow> \<exists>w. s' = s\<lparr>well := w\<rparr>"
  by (auto simp: lock_def split: option.splits)

lemma spawn_fields:
  "\<exists>i st p b n. spawn s = s\<lparr>cur_i := i, stats := st, cur_r := 0, cur_x := 3,
     cur_y := 0, cur_p := p, bag := b, reads := n\<rparr>"
proof (cases "ucast (cur_p s + 1) = BAG_SIZE")
  case True
  obtain b n where sh: "shuffle (tsc s) (reads s) (bag s) BAG_SIZE = (b, n)"
    by (cases "shuffle (tsc s) (reads s) (bag s) BAG_SIZE")
  have "spawn s = s\<lparr>cur_i := bag s ! unat (cur_p s),
      stats := (stats s)[unat (bag s ! unat (cur_p s)) := stats s ! unat (bag s ! unat (cur_p s)) + 1],
      cur_r := 0, cur_x := 3, cur_y := 0, cur_p := 0, bag := b, reads := n\<rparr>"
    using True sh by (simp add: spawn_def Let_def WELL_WIDTH_def)
  then show ?thesis by blast
next
  case False
  have "spawn s = s\<lparr>cur_i := bag s ! unat (cur_p s),
      stats := (stats s)[unat (bag s ! unat (cur_p s)) := stats s ! unat (bag s ! unat (cur_p s)) + 1],
      cur_r := 0, cur_x := 3, cur_y := 0, cur_p := cur_p s + 1, bag := bag s, reads := reads s\<rparr>"
    using False by (simp add: spawn_def Let_def WELL_WIDTH_def)
  then show ?thesis by blast
qed

lemma gravity_keeps:
  assumes "gravity s = Some (b, s')"
  shows "score s' = score s \<and> level s' = level s \<and> level_rows s' = level_rows s \<and>
         speed s' = speed s \<and> level_up s' = level_up s \<and> (b \<longleftrightarrow> gravity_blocked s)"
proof (cases "move s 0 1")
  case (Pair m s1)
  from move_fields [OF Pair] obtain x y where s1: "s1 = s\<lparr>cur_x := x, cur_y := y\<rparr>"
    by blast
  have y1: "\<not> m \<Longrightarrow> s1 = s"
    using Pair by (auto simp: move_def split: if_splits)
  show ?thesis
  proof (cases m)
    case True
    with assms Pair have "s' = s1" "\<not> b" "\<not> gravity_blocked s"
      by (auto simp: gravity_def gravity_blocked_def)
    then show ?thesis by (simp add: s1)
  next
    case False
    show ?thesis
    proof (cases "cur_y s1 = 0")
      case True
      with assms Pair False y1 have "s' = s\<lparr>game_over := True\<rparr>" "b" "gravity_blocked s"
        by (auto simp: gravity_def gravity_blocked_def)
      then show ?thesis by simp
    next
      case nz: False
      with assms Pair False obtain s2 where l: "lock s1 = Some s2" and s': "s' = spawn s2" "\<not> b"
        by (auto simp: gravity_def split: option.splits)
      from lock_fields [OF l] obtain w where s2: "s2 = s1\<lparr>well := w\<rparr>"
        by blast
      from spawn_fields [of s2] obtain i st p bg n where
        s3: "spawn s2 = s2\<lparr>cur_i := i, stats := st, cur_r := 0, cur_x := 3,
               cur_y := 0, cur_p := p, bag := bg, reads := n\<rparr>"
        by blast
      have "\<not> gravity_blocked s"
        using nz y1 False Pair by (simp add: gravity_blocked_def)
      moreover have "score s' = score s2 \<and> level s' = level s2 \<and>
          level_rows s' = level_rows s2 \<and> speed s' = speed s2 \<and> level_up s' = level_up s2"
        unfolding s'(1) s3 by simp
      moreover have "score s2 = score s \<and> level s2 = level s \<and>
          level_rows s2 = level_rows s \<and> speed s2 = speed s \<and> level_up s2 = level_up s"
        by (simp add: s2 s1)
      ultimately show ?thesis
        using s'(2) by simp
    qed
  qed
qed

lemma update_blocked:
  assumes "gravity_blocked s"
  shows "update s = Some (s\<lparr>game_over := True\<rparr>)"
proof -
  have y: "cur_y s = 0" and f: "\<not> fst (move s 0 1)"
    using assms by (simp_all add: gravity_blocked_def)
  have "snd (move s 0 1) = s"
    using f by (simp add: move_def split: if_splits)
  with f have "move s 0 1 = (False, s)"
    by (cases "move s 0 1") simp
  then have "gravity s = Some (True, s\<lparr>game_over := True\<rparr>)"
    using y by (simp add: gravity_def)
  then show ?thesis
    by (simp add: update_def)
qed

lemma scoring_fields: "\<exists>sc. scoring k s = s\<lparr>score := sc\<rparr>"
proof -
  have "scoring k s = s\<lparr>score := score (scoring k s)\<rparr>"
    by (simp add: scoring_def)
  then show ?thesis ..
qed

lemma leveling_fields:
  assumes "leveling k s = Some s'"
  shows "\<exists>lr l sp lu. s' = s\<lparr>level_rows := lr, level := l, speed := sp, level_up := lu\<rparr>"
proof (cases "level_rows s + of_nat k \<ge> ROWS_PER_LEVEL")
  case True
  with assms have "s' = s\<lparr>level_rows := level_rows s + of_nat k - ROWS_PER_LEVEL,
      level := level s + 1, speed := 10 + 990 div (level s + 1), level_up := 1\<rparr>"
    by (auto simp: leveling_def Let_def split: if_splits)
  then show ?thesis by blast
next
  case False
  with assms have "s' = s\<lparr>level_rows := level_rows s + of_nat k, level := level s,
      speed := speed s, level_up := level_up s\<rparr>"
    by (auto simp: leveling_def Let_def split: if_splits)
  then show ?thesis by blast
qed

lemma update_unblocked:
  assumes "update s = Some s'" "\<not> gravity_blocked s"
  shows "\<exists>s2. score s2 = score s \<and> level s2 = level s \<and> level_rows s2 = level_rows s \<and>
           speed s2 = speed s \<and> level_up s2 = level_up s \<and> well s2 = well s' \<and>
           length (full_rows (well s')) \<le> 4 \<and>
           leveling (length (full_rows (well s'))) (scoring (length (full_rows (well s'))) s2) = Some s'"
proof -
  from assms(1) obtain b s1 where g: "gravity s = Some (b, s1)"
    by (auto simp: update_def split: option.splits)
  note k = gravity_keeps [OF g]
  with assms(2) have nb: "\<not> b" by simp
  with assms(1) g obtain n s2 where rc: "row_clearing s1 = Some (n, s2)"
    and lv: "leveling n (scoring n s2) = Some s'"
    by (auto simp: update_def split: option.splits)
  from row_clearing_rows [OF rc] obtain cr where n: "n = length (full_rows (well s1))" "n \<le> 4"
    and s2: "s2 = s1\<lparr>cleared_rows := cr\<rparr>"
    by blast
  from scoring_fields [of n s2] obtain sc where s3: "scoring n s2 = s2\<lparr>score := sc\<rparr>"
    by blast
  from leveling_fields [OF lv] obtain lr l sp lu where
    s4: "s' = (scoring n s2)\<lparr>level_rows := lr, level := l, speed := sp, level_up := lu\<rparr>"
    by blast
  have "well s' = well (scoring n s2)"
    by (simp add: s4)
  also have "\<dots> = well s2"
    by (simp add: s3)
  finally have w: "well s' = well s1" "well s2 = well s1"
    by (simp_all add: s2)
  have f: "score s2 = score s" "level s2 = level s" "level_rows s2 = level_rows s"
      "speed s2 = speed s" "level_up s2 = level_up s"
    using k by (simp_all add: s2)
  have e: "length (full_rows (well s')) = n"
    unfolding w(1) n(1) ..
  show ?thesis
    unfolding e
  proof (rule exI [of _ s2], intro conjI)
    show "score s2 = score s" "level s2 = level s" "level_rows s2 = level_rows s"
      "speed s2 = speed s" "level_up s2 = level_up s"
      by (rule f)+
    show "well s2 = well s'"
      unfolding w ..
    show "n \<le> 4"
      by (rule n(2))
    show "leveling n (scoring n s2) = Some s'"
      by (rule lv)
  qed
qed

text \<open>
  C5. The rows that an \<^verbatim>\<open>update\<close> call detects are the full rows of the well after
  its gravity step, which is the well it returns (\<open>scan_loop_rows\<close>,
  \<open>update_unblocked\<close>); in the game-over branch no row is looked at. Every
  \<^verbatim>\<open>update\<close> call that detects exactly 1, 2, 3 or 4 full rows adds 100, 300, 500 or
  800 times the level at the call to the score (in \<^verbatim>\<open>uint32_t\<close> arithmetic), and a
  call that detects none leaves the score unchanged.
\<close>

theorem update_scoring:
  assumes "update s = Some s'"
  shows "(gravity_blocked s \<longrightarrow> score s' = score s) \<and>
         (\<not> gravity_blocked s \<longrightarrow>
            length (full_rows (well s')) \<le> 4 \<and>
            (length (full_rows (well s')) = 0 \<longrightarrow> score s' = score s) \<and>
            (length (full_rows (well s')) = 1 \<longrightarrow> score s' = score s + 100 * level s) \<and>
            (length (full_rows (well s')) = 2 \<longrightarrow> score s' = score s + 300 * level s) \<and>
            (length (full_rows (well s')) = 3 \<longrightarrow> score s' = score s + 500 * level s) \<and>
            (length (full_rows (well s')) = 4 \<longrightarrow> score s' = score s + 800 * level s))"
proof (cases "gravity_blocked s")
  case True
  with assms update_blocked [OF True] show ?thesis by auto
next
  case False
  define k where "k = length (full_rows (well s'))"
  from update_unblocked [OF assms False]
  obtain s2 where f: "score s2 = score s" "level s2 = level s"
    and k4: "k \<le> 4" and lv: "leveling k (scoring k s2) = Some s'"
    unfolding k_def by blast
  from leveling_fields [OF lv] obtain lr l sp lu where
    "s' = (scoring k s2)\<lparr>level_rows := lr, level := l, speed := sp, level_up := lu\<rparr>"
    by blast
  then have "score s' = score (scoring k s2)"
    by simp
  then have "k \<le> 4 \<and>
            (k = 0 \<longrightarrow> score s' = score s) \<and>
            (k = 1 \<longrightarrow> score s' = score s + 100 * level s) \<and>
            (k = 2 \<longrightarrow> score s' = score s + 300 * level s) \<and>
            (k = 3 \<longrightarrow> score s' = score s + 500 * level s) \<and>
            (k = 4 \<longrightarrow> score s' = score s + 800 * level s)"
    using f k4
    by (simp add: scoring_def SCORE_FACTOR_1_def SCORE_FACTOR_2_def SCORE_FACTOR_3_def
        SCORE_FACTOR_4_def)
  then show ?thesis
    using False unfolding k_def by blast
qed

lemma floor_well_rows:
  "floor_well =
    [replicate 10 0, replicate 10 0, replicate 10 0, replicate 10 0, replicate 10 0,
     replicate 10 0, replicate 10 0, replicate 10 0, replicate 10 0, replicate 10 0,
     replicate 10 0, replicate 10 0, replicate 10 0, replicate 10 0, replicate 10 0,
     replicate 10 0, replicate 10 0, replicate 10 0, replicate 10 0, replicate 10 0,
     replicate 10 0, replicate 10 1]"
  unfolding floor_well_def by (simp add: numeral_eq_Suc)

lemma full_rows_floor_well: "full_rows floor_well = [21]"
  by (simp add: full_rows_def full_row_def upt_0_22 upt_0_10 floor_well_rows)

lemma scan_floor_well: "scan_loop floor_well [0, 0, 0, 0] 0 0 0 = Some ([21, 0, 0, 0], 1)"
  by (simp add: scan_loop.simps count_loop.simps floor_well_rows WELL_HEIGHT_def WELL_WIDTH_def)

lemma gravity_row_game:
  "gravity (row_game l) = Some (False, (row_game l)\<lparr>cur_x := 0, cur_y := 1\<rparr>)"
  by (simp add: gravity_def move_def row_game_def demo_game_def initial_game_def collide_eval
      floor_well_rows)

lemma update_row_game:
  assumes "l + 1 \<noteq> 0"
  shows "update (row_game l) =
     Some ((row_game l)\<lparr>cur_x := 0, cur_y := 1, cleared_rows := [21, 0, 0, 0],
        score := 100 * l, level_rows := 0, level := l + 1, speed := 10 + 990 div (l + 1),
        level_up := 1\<rparr>)"
proof -
  let ?g1 = "(row_game l)\<lparr>cur_x := 0, cur_y := 1\<rparr>"
  let ?g2 = "?g1\<lparr>cleared_rows := [21, 0, 0, 0]\<rparr>"
  have f: "score (row_game l) = 0" "level (row_game l) = l" "level_rows (row_game l) = 9"
    "well (row_game l) = floor_well" "cleared_rows (row_game l) = [0, 0, 0, 0]"
    by (simp_all add: row_game_def demo_game_def initial_game_def numeral_eq_Suc)
  have rc: "row_clearing ?g1 = Some (1, ?g2)"
    by (simp add: row_clearing_def f scan_floor_well)
  have sc: "scoring (Suc 0) ?g2 = ?g2\<lparr>score := 100 * l\<rparr>"
    by (simp add: scoring_def f SCORE_FACTOR_1_def)
  have lv: "leveling (Suc 0) (?g2\<lparr>score := 100 * l\<rparr>) =
      Some (?g2\<lparr>score := 100 * l, level_rows := 0, level := l + 1,
        speed := 10 + 990 div (l + 1), level_up := 1\<rparr>)"
    using assms by (simp add: leveling_def Let_def f ROWS_PER_LEVEL_def)
  show ?thesis
    unfolding update_def gravity_row_game by (simp add: rc sc lv)
qed

lemma unat_level_speed:
  "unat (10 + 990 div (l :: uint32_t)) = 10 + 990 div unat l"
proof -
  have d: "unat (990 div l) = 990 div unat l"
    by (simp add: unat_div)
  have "990 div unat l \<le> 990"
    by (rule div_le_dividend)
  then have "10 + 990 div unat l < 4294967296"
    by linarith
  then have "unat (10 :: uint32_t) + unat (990 div l) < 2 ^ LENGTH(32)"
    by (simp add: d)
  then have "unat (10 + 990 div l) = unat (10 :: uint32_t) + unat (990 div l)"
    by (simp only: unat_add_lem)
  then show ?thesis
    by (simp add: d)
qed

lemma level_speed_antimono:
  assumes "0 < l1" "l1 \<le> (l2 :: uint32_t)"
  shows "10 + 990 div l2 \<le> 10 + 990 div l1"
proof -
  have "0 < unat l1" "unat l1 \<le> unat l2"
    using assms by (simp_all add: word_less_nat_alt word_le_nat_alt)
  then have "990 div unat l2 \<le> 990 div unat l1"
    by (rule div_le_mono2)
  then show ?thesis
    by (simp add: word_le_nat_alt unat_level_speed)
qed

lemma unat_level_rows_add:
  assumes "unat (lr :: uint8_t) < 10" "k \<le> 4"
  shows "unat (lr + of_nat k) = unat lr + k"
proof -
  have k: "unat (of_nat k :: uint8_t) = k"
    using assms by (simp add: unat_of_nat)
  have "unat lr + unat (of_nat k :: uint8_t) < 2 ^ LENGTH(8)"
    using assms by (simp add: k)
  then have "unat (lr + of_nat k) = unat lr + unat (of_nat k :: uint8_t)"
    by (simp only: unat_add_lem)
  then show ?thesis
    by (simp add: k)
qed

lemma unat_level_succ:
  assumes "(l :: uint32_t) + 1 \<noteq> 0"
  shows "unat (l + 1) = unat l + 1"
  using unatSuc [of l] assms by (simp add: add.commute)

lemma leveling_result:
  assumes lv: "leveling k s = Some s'" and lr: "unat (level_rows s) < 10" and k: "k \<le> 4"
  shows "(unat (level_rows s) + k < 10 \<longrightarrow>
            unat (level_rows s') = unat (level_rows s) + k \<and> level s' = level s \<and>
            speed s' = speed s) \<and>
         (10 \<le> unat (level_rows s) + k \<longrightarrow>
            unat (level_rows s') = unat (level_rows s) + k - 10 \<and>
            unat (level s') = unat (level s) + 1 \<and>
            speed s' = 10 + 990 div level s' \<and> level_up s' = 1) \<and>
         unat (level_rows s') < 10"
proof -
  let ?lr = "level_rows s + of_nat k"
  have u: "unat ?lr = unat (level_rows s) + k"
    using lr k by (rule unat_level_rows_add)
  have c: "ROWS_PER_LEVEL \<le> ?lr \<longleftrightarrow> 10 \<le> unat (level_rows s) + k"
    by (simp add: word_le_nat_alt u ROWS_PER_LEVEL_def)
  show ?thesis
  proof (cases "10 \<le> unat (level_rows s) + k")
    case False
    with lv c have "s' = s\<lparr>level_rows := ?lr\<rparr>"
      by (auto simp: leveling_def Let_def)
    then show ?thesis
      using False u by simp
  next
    case True
    with lv c have nz: "level s + 1 \<noteq> 0"
      and s': "s' = s\<lparr>level_rows := ?lr - ROWS_PER_LEVEL, level := level s + 1,
          speed := 10 + 990 div (level s + 1), level_up := 1\<rparr>"
      by (auto simp: leveling_def Let_def split: if_splits)
    have "(10 :: uint8_t) \<le> ?lr"
      using True c by (simp add: ROWS_PER_LEVEL_def)
    then have "unat (?lr - 10) = unat ?lr - unat (10 :: uint8_t)"
      by (rule unat_sub)
    then have "unat (?lr - ROWS_PER_LEVEL) = unat (level_rows s) + k - 10"
      by (simp add: u ROWS_PER_LEVEL_def)
    moreover have "unat (level s + 1) = unat (level s) + 1"
      using nz by (rule unat_level_succ)
    ultimately show ?thesis
      using True lr k by (simp add: s')
  qed
qed

text \<open>
  At level 31 with the bottom row full: one row is detected and the score goes from 0
  to 3100.
\<close>

theorem update_scoring_witness:
  "(case update (row_game 31) of
      None \<Rightarrow> False
    | Some s' \<Rightarrow>
        \<not> gravity_blocked (row_game 31) \<and> length (full_rows (well s')) = 1 \<and>
        score s' = score (row_game 31) + 100 * level (row_game 31) \<and>
        level (row_game 31) = 31 \<and> score s' = 3100)"
proof -
  let ?s' = "(row_game 31)\<lparr>cur_x := 0, cur_y := 1, cleared_rows := [21, 0, 0, 0],
        score := 100 * 31, level_rows := 0, level := 31 + 1, speed := 10 + 990 div (31 + 1),
        level_up := 1\<rparr>"
  have u: "update (row_game 31) = Some ?s'"
    by (rule update_row_game) simp
  have nb: "\<not> gravity_blocked (row_game 31)"
    using gravity_keeps [OF gravity_row_game [of 31]] by simp
  have one: "length (full_rows (well ?s')) = 1"
    by (simp add: row_game_def full_rows_floor_well)
  have f: "score (row_game 31) = 0" "level (row_game 31) = 31"
    by (simp_all add: row_game_def demo_game_def initial_game_def)
  from update_scoring [OF u] nb one
  have "score ?s' = score (row_game 31) + 100 * level (row_game 31)"
    by blast
  then show ?thesis
    using nb one f by (simp add: u)
qed

text \<open>
  C6, amended. With the row counter below 10 before the call (as it is initially and
  after every call), an \<^verbatim>\<open>update\<close> call adds the number of rows it detects to the
  counter; when the sum reaches at least 10, the level increases by exactly 1, the
  counter is reduced by exactly 10, and the speed becomes \<open>10 + 990 div level\<close> for
  the new level, which is never larger for a larger level; otherwise level and speed
  are unchanged.
\<close>

theorem update_leveling:
  assumes "update s = Some s'" and "unat (level_rows s) < 10"
  shows "(gravity_blocked s \<longrightarrow>
            level_rows s' = level_rows s \<and> level s' = level s \<and> speed s' = speed s) \<and>
         (\<not> gravity_blocked s \<and> unat (level_rows s) + length (full_rows (well s')) < 10 \<longrightarrow>
            unat (level_rows s') = unat (level_rows s) + length (full_rows (well s')) \<and>
            level s' = level s \<and> speed s' = speed s) \<and>
         (\<not> gravity_blocked s \<and> 10 \<le> unat (level_rows s) + length (full_rows (well s')) \<longrightarrow>
            unat (level_rows s') = unat (level_rows s) + length (full_rows (well s')) - 10 \<and>
            unat (level s') = unat (level s) + 1 \<and>
            unat (speed s') = 10 + 990 div unat (level s') \<and> level_up s' = 1) \<and>
         unat (level_rows s') < 10 \<and>
         (\<forall>l1 l2 :: uint32_t. 0 < l1 \<and> l1 \<le> l2 \<longrightarrow> 10 + 990 div l2 \<le> 10 + 990 div l1)"
proof -
  have mono: "\<forall>l1 l2 :: uint32_t. 0 < l1 \<and> l1 \<le> l2 \<longrightarrow> 10 + 990 div l2 \<le> 10 + 990 div l1"
    using level_speed_antimono by blast
  show ?thesis
  proof (cases "gravity_blocked s")
    case True
    with assms update_blocked [OF True] mono show ?thesis by auto
  next
    case False
    define k where "k = length (full_rows (well s'))"
    from update_unblocked [OF assms(1) False]
    obtain s2 where f: "level s2 = level s" "level_rows s2 = level_rows s" "speed s2 = speed s"
      and k4: "k \<le> 4" and lv: "leveling k (scoring k s2) = Some s'"
      unfolding k_def by blast
    from scoring_fields [of k s2] obtain sc where sc: "scoring k s2 = s2\<lparr>score := sc\<rparr>"
      by blast
    have g: "level (scoring k s2) = level s" "level_rows (scoring k s2) = level_rows s"
      "speed (scoring k s2) = speed s"
      by (simp_all add: sc f)
    have "unat (level_rows (scoring k s2)) < 10"
      using assms(2) by (simp add: g)
    from leveling_result [OF lv this k4]
    have "(unat (level_rows s) + k < 10 \<longrightarrow>
            unat (level_rows s') = unat (level_rows s) + k \<and> level s' = level s \<and>
            speed s' = speed s) \<and>
         (10 \<le> unat (level_rows s) + k \<longrightarrow>
            unat (level_rows s') = unat (level_rows s) + k - 10 \<and>
            unat (level s') = unat (level s) + 1 \<and>
            unat (speed s') = 10 + 990 div unat (level s') \<and> level_up s' = 1) \<and>
         unat (level_rows s') < 10"
      by (simp add: g unat_level_speed)
    then show ?thesis
      using False mono unfolding k_def by blast
  qed
qed

text \<open>
  C6. The claim calls the speed strictly smaller for a larger level. Reaching level 32
  and reaching level 33 both set the speed to 40: \<open>990 div 32 = 990 div 33 = 30\<close>.
\<close>

theorem update_speed_counterexample:
  "(case update (row_game 31) of
      None \<Rightarrow> False
    | Some a \<Rightarrow>
        (case update (row_game 32) of
           None \<Rightarrow> False
         | Some b \<Rightarrow>
             level a = 32 \<and> level b = 33 \<and> level a < level b \<and>
             speed a = 40 \<and> speed b = 40 \<and> \<not> speed b < speed a))"
proof -
  have a: "(31 :: uint32_t) + 1 \<noteq> 0" and b: "(32 :: uint32_t) + 1 \<noteq> 0"
    by simp_all
  show ?thesis
    by (simp add: update_row_game [OF a] update_row_game [OF b])
qed

text \<open>
  With 9 rows counted at level 31 and one row detected: the counter becomes 0, the
  level 32 and the speed 40.
\<close>

theorem update_leveling_witness:
  "unat (level_rows (row_game 31)) < 10 \<and>
   (case update (row_game 31) of
      None \<Rightarrow> False
    | Some s' \<Rightarrow>
        \<not> gravity_blocked (row_game 31) \<and>
        10 \<le> unat (level_rows (row_game 31)) + length (full_rows (well s')) \<and>
        unat (level_rows s') = 0 \<and> unat (level s') = 32 \<and> unat (speed s') = 40 \<and>
        level_up s' = 1)"
proof -
  let ?s' = "(row_game 31)\<lparr>cur_x := 0, cur_y := 1, cleared_rows := [21, 0, 0, 0],
        score := 100 * 31, level_rows := 0, level := 31 + 1, speed := 10 + 990 div (31 + 1),
        level_up := 1\<rparr>"
  have u: "update (row_game 31) = Some ?s'"
    by (rule update_row_game) simp
  have nb: "\<not> gravity_blocked (row_game 31)"
    using gravity_keeps [OF gravity_row_game [of 31]] by simp
  have one: "length (full_rows (well ?s')) = 1"
    by (simp add: row_game_def full_rows_floor_well)
  have f: "unat (level_rows (row_game 31)) = 9" "unat (level (row_game 31)) = 31"
    by (simp_all add: row_game_def demo_game_def initial_game_def)
  then have lt: "unat (level_rows (row_game 31)) < 10"
    by simp
  from update_leveling [OF u lt] nb one f
  have "unat (level_rows ?s') = 9 + 1 - 10 \<and> unat (level ?s') = 31 + 1 \<and>
      unat (speed ?s') = 10 + 990 div unat (level ?s') \<and> level_up ?s' = 1"
    by simp
  then show ?thesis
    using nb one f by (simp add: u)
qed

subsection \<open>The bag\<close>

lemma bag_ok_length: "bag_ok b \<Longrightarrow> length b = 7"
proof -
  assume "bag_ok b"
  then have "size (mset b) = size (mset initial_bag)"
    by (simp add: bag_ok_def)
  then show ?thesis
    by (simp add: initial_bag_def)
qed

lemma unat_rand_less:
  assumes "i < 4294967295"
  shows "unat (fst (rand t n (of_nat i + 1))) \<le> i"
proof -
  have "unat (of_nat (Suc i) :: uint32_t) = Suc i mod 2 ^ LENGTH(32)"
    by (rule unat_of_nat)
  also have "\<dots> = Suc i"
    using assms by simp
  finally have r: "unat ((of_nat i :: uint32_t) + 1) = i + 1"
    by (simp add: add.commute)
  have "unat (fst (rand t n (of_nat i + 1))) = unat (ucast (t n) :: uint32_t) mod (i + 1)"
    by (simp add: rand_def unat_mod r)
  also have "\<dots> < i + 1"
    by simp
  finally show ?thesis by simp
qed

lemma shuffle_loop_mset:
  assumes "i < length arr" "length arr \<le> 4294967295"
  shows "mset (fst (shuffle_loop t n arr i)) = mset arr"
  using assms
proof (induction t n arr i rule: shuffle_loop.induct)
  case (1 t n arr i)
  show ?case
  proof (cases "0 < i")
    case False
    then show ?thesis
      by (subst shuffle_loop.simps) simp
  next
    case True
    obtain j n' where r: "rand t n (of_nat i + 1) = (j, n')"
      by (cases "rand t n (of_nat i + 1)")
    have "unat (fst (rand t n (of_nat i + 1))) \<le> i"
      using "1.prems" by (intro unat_rand_less) simp
    then have j: "unat j < length arr"
      using r "1.prems" by simp
    let ?arr = "arr[i := arr ! unat j, unat j := arr ! i]"
    have sw: "mset ?arr = mset arr"
      using j "1.prems"(1) by (rule mset_swap)
    have "shuffle_loop t n arr i = shuffle_loop t n' ?arr (i - 1)"
      using True r by (subst shuffle_loop.simps) (simp add: Let_def)
    moreover have "mset (fst (shuffle_loop t n' ?arr (i - 1))) = mset ?arr"
      using "1.prems" True
      by (intro "1.IH" [OF True r [symmetric] refl refl refl]) simp_all
    ultimately show ?thesis
      using sw by simp
  qed
qed

lemma shuffle_bag_mset:
  assumes "length arr = 7"
  shows "mset (fst (shuffle t n arr BAG_SIZE)) = mset arr"
  unfolding shuffle_def BAG_SIZE_def using assms by (simp add: shuffle_loop_mset)

lemma unat_ucast_8_32: "unat (ucast (w :: uint8_t) :: uint32_t) = unat w"
proof -
  have "unat w < 2 ^ LENGTH(8)"
    by (rule unsigned_less)
  then have "unat w < 2 ^ 32"
    by simp
  then show ?thesis
    by (simp add: unsigned_ucast_eq take_bit_nat_eq_self)
qed

lemma ucast_is_bag_size: "ucast (w :: uint8_t) = BAG_SIZE \<longleftrightarrow> unat w = 7"
proof -
  have "ucast w = BAG_SIZE \<longleftrightarrow> unat (ucast w :: uint32_t) = unat BAG_SIZE"
    by (simp add: word_unat_eq_iff)
  then show ?thesis
    by (simp add: unat_ucast_8_32 BAG_SIZE_def)
qed


lemma unat_cur_p_succ:
  assumes "unat (p :: uint8_t) < 7"
  shows "unat (p + 1) = unat p + 1"
proof -
  have "unat p + unat (1 :: uint8_t) < 2 ^ LENGTH(8)"
    using assms by simp
  then have "unat (p + 1) = unat p + unat (1 :: uint8_t)"
    by (simp only: unat_add_lem)
  then show ?thesis by simp
qed

lemma spawn_next:
  assumes "unat (cur_p s) < 6"
  shows "spawn s = s\<lparr>cur_i := bag s ! unat (cur_p s),
      stats := (stats s)[unat (bag s ! unat (cur_p s)) := stats s ! unat (bag s ! unat (cur_p s)) + 1],
      cur_r := 0, cur_x := 3, cur_y := 0, cur_p := cur_p s + 1\<rparr>"
proof -
  have "unat (cur_p s + 1) = unat (cur_p s) + 1"
    using assms by (intro unat_cur_p_succ) simp
  then have "\<not> ucast (cur_p s + 1) = BAG_SIZE"
    using assms by (simp add: ucast_is_bag_size)
  then show ?thesis
    by (simp add: spawn_def Let_def WELL_WIDTH_def)
qed

lemma spawn_last:
  assumes "unat (cur_p s) = 6"
  shows "spawn s = s\<lparr>cur_i := bag s ! unat (cur_p s),
      stats := (stats s)[unat (bag s ! unat (cur_p s)) := stats s ! unat (bag s ! unat (cur_p s)) + 1],
      cur_r := 0, cur_x := 3, cur_y := 0, cur_p := 0,
      bag := fst (shuffle (tsc s) (reads s) (bag s) BAG_SIZE),
      reads := snd (shuffle (tsc s) (reads s) (bag s) BAG_SIZE)\<rparr>"
proof -
  have "unat (cur_p s + 1) = unat (cur_p s) + 1"
    using assms by (intro unat_cur_p_succ) simp
  then have "ucast (cur_p s + 1) = BAG_SIZE"
    using assms by (simp add: ucast_is_bag_size)
  then show ?thesis
    by (simp add: spawn_def Let_def WELL_WIDTH_def split: prod.splits)
qed

lemma spawn_bag:
  assumes "bag_ok (bag s)" "unat (cur_p s) < 7"
  shows "bag_ok (bag (spawn s)) \<and> unat (cur_p (spawn s)) = (unat (cur_p s) + 1) mod 7 \<and>
         cur_i (spawn s) = bag s ! unat (cur_p s) \<and>
         (unat (cur_p s) < 6 \<longrightarrow> bag (spawn s) = bag s)"
proof (cases "unat (cur_p s) < 6")
  case True
  have "unat (cur_p s + 1) = unat (cur_p s) + 1"
    using True by (intro unat_cur_p_succ) simp
  then show ?thesis
    using True assms by (simp add: spawn_next [OF True])
next
  case False
  with assms have six: "unat (cur_p s) = 6" by simp
  have "length (bag s) = 7"
    using assms by (simp add: bag_ok_length)
  then have "mset (fst (shuffle (tsc s) (reads s) (bag s) BAG_SIZE)) = mset (bag s)"
    by (rule shuffle_bag_mset)
  then show ?thesis
    using six assms by (simp add: spawn_last [OF six] bag_ok_def)
qed

lemma deal_take:
  assumes "bag_ok (bag s)" "unat (cur_p s) + n \<le> 7"
  shows "fst (deal n s) = take n (drop (unat (cur_p s)) (bag s))"
  using assms
proof (induction n arbitrary: s)
  case 0
  show ?case by simp
next
  case (Suc n)
  have p: "unat (cur_p s) < 7"
    using Suc.prems by simp
  note sp = spawn_bag [OF Suc.prems(1) p]
  have len: "length (bag s) = 7"
    using Suc.prems by (simp add: bag_ok_length)
  have hd: "take (Suc n) (drop (unat (cur_p s)) (bag s)) =
      bag s ! unat (cur_p s) # take n (drop (Suc (unat (cur_p s))) (bag s))"
    using p len by (simp add: Cons_nth_drop_Suc [symmetric])
  show ?case
  proof (cases n)
    case 0
    then show ?thesis
      using sp hd by (simp add: case_prod_beta)
  next
    case (Suc m)
    with Suc.prems have lt: "unat (cur_p s) < 6"
      by simp
    then have q: "unat (cur_p (spawn s)) = Suc (unat (cur_p s))" and b: "bag (spawn s) = bag s"
      using sp by simp_all
    have "fst (deal n (spawn s)) = take n (drop (unat (cur_p (spawn s))) (bag (spawn s)))"
      using Suc.prems sp q by (intro Suc.IH) simp_all
    then show ?thesis
      using sp hd q b by (simp add: case_prod_beta)
  qed
qed

lemma deal_state:
  assumes "bag_ok (bag s)" "unat (cur_p s) < 7"
  shows "bag_ok (bag (snd (deal n s))) \<and>
         unat (cur_p (snd (deal n s))) = (unat (cur_p s) + n) mod 7"
  using assms
proof (induction n arbitrary: s)
  case 0
  then show ?case by simp
next
  case (Suc n)
  note sp = spawn_bag [OF Suc.prems]
  have "bag_ok (bag (snd (deal n (spawn s)))) \<and>
      unat (cur_p (snd (deal n (spawn s)))) = (unat (cur_p (spawn s)) + n) mod 7"
    using sp by (intro Suc.IH) simp_all
  moreover have "(unat (cur_p (spawn s)) + n) mod 7 = (unat (cur_p s) + Suc n) mod 7"
    using sp by (simp add: mod_add_left_eq)
  ultimately show ?case
    by (simp add: case_prod_beta)
qed

lemma bag_ok_count:
  assumes "mset ks = mset initial_bag" "k \<in> set initial_bag"
  shows "count_list ks k = 1"
proof -
  have "count_list ks k = count (mset ks) k"
    by (simp add: count_mset)
  also have "\<dots> = count_list initial_bag k"
    by (simp add: assms(1) count_mset)
  also have "\<dots> = 1"
    using assms(2) by (auto simp: initial_bag_def)
  finally show ?thesis .
qed

text \<open>
  C9. The bag is a permutation of the kind indices 0..6 initially; \<^verbatim>\<open>shuffle\<close> of a
  seven-element array returns a permutation of it; \<^verbatim>\<open>spawn\<close>, with the cursor inside
  the bag, keeps the bag a permutation and the cursor inside, and leaves the bag as it
  is unless the cursor was at the last slot. Hence seven \<^verbatim>\<open>spawn\<close> calls from a
  reshuffle boundary (cursor 0) deal exactly the bag, each of the 7 kinds exactly once,
  and end at the next boundary with a bag that is again a permutation.
\<close>

theorem bag_is_permutation:
  "bag_ok (bag (initial_game t)) \<and> cur_p (initial_game t) = 0 \<and>
   (length arr = 7 \<longrightarrow> mset (fst (shuffle t n arr BAG_SIZE)) = mset arr) \<and>
   (bag_ok (bag s) \<and> unat (cur_p s) < 7 \<longrightarrow>
      bag_ok (bag (spawn s)) \<and> unat (cur_p (spawn s)) < 7 \<and>
      (unat (cur_p s) < 6 \<longrightarrow> bag (spawn s) = bag s)) \<and>
   (bag_ok (bag s) \<and> cur_p s = 0 \<longrightarrow>
      fst (deal 7 s) = bag s \<and> mset (fst (deal 7 s)) = mset initial_bag \<and>
      (\<forall>k \<in> set initial_bag. count_list (fst (deal 7 s)) k = 1) \<and>
      bag_ok (bag (snd (deal 7 s))) \<and> cur_p (snd (deal 7 s)) = 0)"
proof (intro conjI impI)
  show "bag_ok (bag (initial_game t))" "cur_p (initial_game t) = 0"
    by (simp_all add: initial_game_def bag_ok_def)
next
  assume "length arr = 7"
  then show "mset (fst (shuffle t n arr BAG_SIZE)) = mset arr"
    by (rule shuffle_bag_mset)
next
  assume a: "bag_ok (bag s) \<and> unat (cur_p s) < 7"
  then have sp: "bag_ok (bag (spawn s)) \<and> unat (cur_p (spawn s)) = (unat (cur_p s) + 1) mod 7 \<and>
         cur_i (spawn s) = bag s ! unat (cur_p s) \<and>
         (unat (cur_p s) < 6 \<longrightarrow> bag (spawn s) = bag s)"
    by (intro spawn_bag) simp_all
  show "bag_ok (bag (spawn s))"
    using sp by simp
  show "unat (cur_p (spawn s)) < 7"
    using sp by simp
  show "bag (spawn s) = bag s" if "unat (cur_p s) < 6"
    using sp that by simp
next
  assume a: "bag_ok (bag s) \<and> cur_p s = 0"
  then have ok: "bag_ok (bag s)" and p: "unat (cur_p s) = 0"
    by simp_all
  have len: "length (bag s) = 7"
    using ok by (rule bag_ok_length)
  have "fst (deal 7 s) = take 7 (drop (unat (cur_p s)) (bag s))"
    using ok p by (intro deal_take) simp_all
  then show d: "fst (deal 7 s) = bag s"
    using p len by simp
  show m: "mset (fst (deal 7 s)) = mset initial_bag"
    using d ok by (simp add: bag_ok_def)
  show "\<forall>k \<in> set initial_bag. count_list (fst (deal 7 s)) k = 1"
    using bag_ok_count [OF m] by blast
  have st: "bag_ok (bag (snd (deal 7 s))) \<and>
      unat (cur_p (snd (deal 7 s))) = (unat (cur_p s) + 7) mod 7"
    using ok p by (intro deal_state) simp_all
  then show "bag_ok (bag (snd (deal 7 s)))"
    by simp
  from st p have "unat (cur_p (snd (deal 7 s))) = 0"
    by simp
  then show "cur_p (snd (deal 7 s)) = 0"
    by (simp add: unat_eq_zero)
qed

text \<open>From the start of a game the first seven kinds dealt are 0, 1, ..., 6.\<close>

theorem bag_is_permutation_witness:
  "bag_ok (bag demo_game) \<and> cur_p demo_game = 0 \<and>
   fst (deal 7 demo_game) = [0, 1, 2, 3, 4, 5, 6] \<and>
   count_list (fst (deal 7 demo_game)) 4 = 1 \<and>
   bag_ok (bag (snd (deal 7 demo_game))) \<and> cur_p (snd (deal 7 demo_game)) = 0"
proof -
  have a: "bag_ok (bag demo_game) \<and> cur_p demo_game = 0"
    by (simp add: demo_game_def initial_game_def bag_ok_def)
  have b: "bag demo_game = [0, 1, 2, 3, 4, 5, 6]"
    by (simp add: demo_game_def initial_game_def initial_bag_def)
  have c: "(4 :: uint8_t) \<in> set initial_bag"
    by (simp add: initial_bag_def)
  from bag_is_permutation [of "\<lambda>n. 0" "[]" 0 demo_game] a b c show ?thesis
    by simp
qed

subsection \<open>Spawning\<close>

lemma gravity_game_over:
  assumes "gravity s = Some (False, s')"
  shows "game_over s' = game_over s"
proof (cases "move s 0 1")
  case (Pair m s1)
  from move_fields [OF Pair] obtain x y where s1: "s1 = s\<lparr>cur_x := x, cur_y := y\<rparr>"
    by blast
  show ?thesis
  proof (cases m)
    case True
    with assms Pair have "s' = s1"
      by (simp add: gravity_def)
    then show ?thesis by (simp add: s1)
  next
    case False
    with assms Pair obtain s2 where l: "lock s1 = Some s2" and s': "s' = spawn s2"
      by (auto simp: gravity_def split: option.splits if_splits)
    from lock_fields [OF l] obtain w where s2: "s2 = s1\<lparr>well := w\<rparr>"
      by blast
    from spawn_fields [of s2] obtain i st p bg n where
      s3: "spawn s2 = s2\<lparr>cur_i := i, stats := st, cur_r := 0, cur_x := 3,
             cur_y := 0, cur_p := p, bag := bg, reads := n\<rparr>"
      by blast
    have "game_over s' = game_over s2"
      unfolding s' s3 by simp
    then show ?thesis
      by (simp add: s2 s1)
  qed
qed

lemma update_game_over:
  assumes "update s = Some s'"
  shows "game_over s' \<longleftrightarrow> game_over s \<or> gravity_blocked s"
proof (cases "gravity_blocked s")
  case True
  with assms update_blocked [OF True] show ?thesis by auto
next
  case False
  from assms obtain b s1 where g: "gravity s = Some (b, s1)"
    by (auto simp: update_def split: option.splits)
  with gravity_keeps [OF g] False have g': "gravity s = Some (False, s1)"
    by simp
  with assms obtain n s2 where rc: "row_clearing s1 = Some (n, s2)"
    and lv: "leveling n (scoring n s2) = Some s'"
    by (auto simp: update_def split: option.splits)
  from row_clearing_rows [OF rc] obtain cr where s2: "s2 = s1\<lparr>cleared_rows := cr\<rparr>"
    by blast
  from scoring_fields [of n s2] obtain sc where s3: "scoring n s2 = s2\<lparr>score := sc\<rparr>"
    by blast
  from leveling_fields [OF lv] obtain lr l sp lu where
    s4: "s' = (scoring n s2)\<lparr>level_rows := lr, level := l, speed := sp, level_up := lu\<rparr>"
    by blast
  have "game_over s' = game_over (scoring n s2)"
    by (simp add: s4)
  also have "\<dots> = game_over s2"
    by (simp add: s3)
  also have "\<dots> = game_over s1"
    by (simp add: s2)
  also have "\<dots> = game_over s"
    by (rule gravity_game_over [OF g'])
  finally show ?thesis
    using False by simp
qed

text \<open>
  C10. In every state whose cursor is inside the bag and whose preview kind indexes the
  statistics array, whatever the well, \<^verbatim>\<open>spawn\<close> sets the active piece to the preview
  kind \<^verbatim>\<open>bag[current.p]\<close> with rotation 0, \<open>x = 3\<close>, \<open>y = 0\<close>, adds exactly 1 to the
  counter of that kind and leaves the other counters, and advances the cursor, or at the
  last slot resets it to 0 and reshuffles the bag. It tests no collision and changes
  neither the well, the score nor \<^verbatim>\<open>game_over\<close>. A later \<^verbatim>\<open>update\<close> whose gravity
  move fails at \<open>y = 0\<close> sets \<^verbatim>\<open>game_over\<close>, and \<^verbatim>\<open>update\<close> sets it in no other case;
  \<^verbatim>\<open>move\<close>, \<^verbatim>\<open>rotate\<close>, \<^verbatim>\<open>soft_drop\<close> and \<^verbatim>\<open>ghost\<close> never change it.
\<close>

theorem spawn_unconditional:
  assumes "unat (cur_p s) < 7" and "unat (bag s ! unat (cur_p s)) < length (stats s)"
  shows "cur_i (spawn s) = bag s ! unat (cur_p s) \<and> cur_r (spawn s) = 0 \<and>
     cur_x (spawn s) = 3 \<and> cur_y (spawn s) = 0 \<and>
     stats (spawn s) ! unat (cur_i (spawn s)) = stats s ! unat (cur_i (spawn s)) + 1 \<and>
     (\<forall>k. k \<noteq> unat (cur_i (spawn s)) \<longrightarrow> stats (spawn s) ! k = stats s ! k) \<and>
     (unat (cur_p s) < 6 \<longrightarrow>
        cur_p (spawn s) = cur_p s + 1 \<and> bag (spawn s) = bag s) \<and>
     (unat (cur_p s) = 6 \<longrightarrow>
        cur_p (spawn s) = 0 \<and>
        bag (spawn s) = fst (shuffle (tsc s) (reads s) (bag s) BAG_SIZE)) \<and>
     well (spawn s) = well s \<and> game_over (spawn s) = game_over s \<and>
     score (spawn s) = score s \<and>
     (gravity_blocked (spawn s) \<longrightarrow>
        update (spawn s) = Some ((spawn s)\<lparr>game_over := True\<rparr>)) \<and>
     (\<forall>s'. update (spawn s) = Some s' \<and> \<not> game_over (spawn s) \<and> game_over s' \<longrightarrow>
        gravity_blocked (spawn s) \<and> cur_y (spawn s) = 0) \<and>
     game_over (snd (move u dx dy)) = game_over u \<and>
     game_over (snd (rotate_piece u)) = game_over u \<and>
     game_over (soft_drop u) = game_over u \<and> game_over (ghost u) = game_over u"
proof -
  have others: "game_over (snd (move u dx dy)) = game_over u \<and>
     game_over (snd (rotate_piece u)) = game_over u \<and>
     game_over (soft_drop u) = game_over u \<and> game_over (ghost u) = game_over u"
    by (simp add: move_def rotate_piece_def soft_drop_def ghost_def Let_def)
  have tail: "(gravity_blocked (spawn s) \<longrightarrow>
        update (spawn s) = Some ((spawn s)\<lparr>game_over := True\<rparr>)) \<and>
     (\<forall>s'. update (spawn s) = Some s' \<and> \<not> game_over (spawn s) \<and> game_over s' \<longrightarrow>
        gravity_blocked (spawn s) \<and> cur_y (spawn s) = 0)"
    using update_blocked [of "spawn s"] update_game_over [of "spawn s"]
    by (auto simp: gravity_blocked_def)
  show ?thesis
  proof (cases "unat (cur_p s) < 6")
    case True
    show ?thesis
      using tail others True assms(2) by (simp add: spawn_next [OF True])
  next
    case False
    with assms have six: "unat (cur_p s) = 6" by simp
    show ?thesis
      using tail others six assms(2) by (simp add: spawn_last [OF six])
  qed
qed

lemma spawn_blocked_game:
  "spawn blocked_game = blocked_game\<lparr>cur_i := 0, stats := [1, 0, 0, 0, 0, 0, 0],
      cur_r := 0, cur_x := 3, cur_y := 0, cur_p := 1\<rparr>"
proof -
  have p: "unat (cur_p blocked_game) < 6"
    by (simp add: blocked_game_def demo_game_def initial_game_def)
  show ?thesis
    unfolding spawn_next [OF p]
    by (simp add: blocked_game_def demo_game_def initial_game_def initial_bag_def numeral_eq_Suc)
qed

text \<open>
  With every cell of the well occupied, the piece that \<^verbatim>\<open>spawn\<close> places collides
  where it stands, the game is not over, and the next \<^verbatim>\<open>update\<close> ends it.
\<close>

theorem spawn_unconditional_witness:
  "unat (cur_p blocked_game) < 7 \<and>
   unat (bag blocked_game ! unat (cur_p blocked_game)) < length (stats blocked_game) \<and>
   collide (well (spawn blocked_game)) (cur_i (spawn blocked_game)) (cur_r (spawn blocked_game))
     (cur_x (spawn blocked_game)) (cur_y (spawn blocked_game)) \<and>
   \<not> game_over (spawn blocked_game) \<and> cur_i (spawn blocked_game) = 0 \<and>
   cur_x (spawn blocked_game) = 3 \<and> cur_y (spawn blocked_game) = 0 \<and>
   stats (spawn blocked_game) ! 0 = 1 \<and> cur_p (spawn blocked_game) = 1 \<and>
   gravity_blocked (spawn blocked_game) \<and>
   update (spawn blocked_game) = Some ((spawn blocked_game)\<lparr>game_over := True\<rparr>)"
proof -
  have a: "unat (cur_p blocked_game) < 7"
    and b: "unat (bag blocked_game ! unat (cur_p blocked_game)) < length (stats blocked_game)"
    by (simp_all add: blocked_game_def demo_game_def initial_game_def initial_bag_def)
  have c: "collide (well (spawn blocked_game)) (cur_i (spawn blocked_game))
     (cur_r (spawn blocked_game)) (cur_x (spawn blocked_game)) (cur_y (spawn blocked_game))"
    unfolding spawn_blocked_game
    by (simp add: blocked_game_def demo_game_def initial_game_def collide_eval)
  have d: "gravity_blocked (spawn blocked_game)"
    unfolding spawn_blocked_game
    by (simp add: gravity_blocked_def move_def blocked_game_def demo_game_def initial_game_def
        collide_eval)
  have e: "\<not> game_over (spawn blocked_game) \<and> stats (spawn blocked_game) ! 0 = 1 \<and>
      cur_p (spawn blocked_game) = 1 \<and> cur_i (spawn blocked_game) = 0"
    unfolding spawn_blocked_game
    by (simp add: blocked_game_def demo_game_def initial_game_def)
  from spawn_unconditional [OF a b] a b c d e show ?thesis
    by simp
qed

subsection \<open>The first piece\<close>

lemma first_shuffle_head:
  assumes "first_shuffle t n b = Some r"
  shows "fst r ! 0 \<noteq> 4 \<and> fst r ! 0 \<noteq> 6"
proof (rule first_shuffle.raw_induct
    [where P = "\<lambda>t n b r. fst r ! 0 \<noteq> 4 \<and> fst r ! 0 \<noteq> 6", OF _ assms])
  fix f :: "(nat \<Rightarrow> uint64_t) \<Rightarrow> nat \<Rightarrow> uint8_t list \<Rightarrow> (uint8_t list \<times> nat) option"
    and t n b r
  assume ih: "\<And>t n b y. f t n b = Some y \<Longrightarrow> fst y ! 0 \<noteq> 4 \<and> fst y ! 0 \<noteq> 6"
    and eq: "(case shuffle t n b BAG_SIZE of
               (b', n') \<Rightarrow> if b' ! 0 = 4 \<or> b' ! 0 = 6 then f t n' b' else Some (b', n')) =
             Some r"
  obtain b' n' where sh: "shuffle t n b BAG_SIZE = (b', n')"
    by (cases "shuffle t n b BAG_SIZE")
  have e: "(if b' ! 0 = 4 \<or> b' ! 0 = 6 then f t n' b' else Some (b', n')) = Some r"
    using eq by (simp add: sh)
  show "fst r ! 0 \<noteq> 4 \<and> fst r ! 0 \<noteq> 6"
  proof (cases "b' ! 0 = 4 \<or> b' ! 0 = 6")
    case True
    then have "f t n' b' = Some r"
      using e by (simp only: if_True)
    then show ?thesis
      by (rule ih)
  next
    case False
    then have "r = (b', n')"
      using e by (simp only: if_False option.inject)
    with False show ?thesis by simp
  qed
qed

text \<open>
  C8. Whenever the initialisation of the game returns (the reshuffle loop ends), the
  kind of the first active piece is the first element of the bag and is neither 4 (S)
  nor 6 (Z).
\<close>

theorem first_piece_not_S_or_Z:
  assumes "init_game t = Some s"
  shows "cur_i s \<noteq> 4 \<and> cur_i s \<noteq> 6 \<and> cur_i s = bag s ! 0 \<and> cur_p s = 1"
proof -
  from assms obtain b n where fs: "first_shuffle t 0 (bag (initial_game t)) = Some (b, n)"
    and s: "s = ghost (spawn ((initial_game t)\<lparr>bag := b, reads := n\<rparr>))"
    by (auto simp: init_game_def split: option.splits)
  let ?g = "(initial_game t)\<lparr>bag := b, reads := n\<rparr>"
  have p: "unat (cur_p ?g) < 6"
    by (simp add: initial_game_def)
  have "cur_i s = b ! 0 \<and> bag s = b \<and> cur_p s = 1"
    unfolding s ghost_def spawn_next [OF p] by (simp add: initial_game_def)
  then show ?thesis
    using first_shuffle_head [OF fs] by simp
qed


lemma shuffle_zero_ticks:
  "shuffle (\<lambda>n. 0) 0 initial_bag BAG_SIZE = ([1, 2, 3, 4, 5, 6, 0], 6)"
  by (simp add: shuffle_def shuffle_loop.simps rand_def BAG_SIZE_def initial_bag_def Let_def)

lemma first_shuffle_zero_ticks:
  "first_shuffle (\<lambda>n. 0) 0 initial_bag = Some ([1, 2, 3, 4, 5, 6, 0], 6)"
  by (subst first_shuffle.simps) (simp add: shuffle_zero_ticks)

text \<open>
  With a counter that always reads 0 the first shuffle gives the bag 1, 2, ..., 6, 0,
  the loop ends at once and the first piece is J.
\<close>

theorem first_piece_not_S_or_Z_witness:
  "(case init_game (\<lambda>n. 0) of
      None \<Rightarrow> False
    | Some s \<Rightarrow> cur_i s = 1 \<and> cur_i s \<noteq> 4 \<and> cur_i s \<noteq> 6 \<and> bag s = [1, 2, 3, 4, 5, 6, 0])"
proof -
  let ?g = "(initial_game (\<lambda>n. 0))\<lparr>bag := [1, 2, 3, 4, 5, 6, 0], reads := 6\<rparr>"
  have i: "init_game (\<lambda>n. 0) = Some (ghost (spawn ?g))"
    by (simp add: init_game_def initial_game_def first_shuffle_zero_ticks)
  have p: "unat (cur_p ?g) < 6"
    by (simp add: initial_game_def)
  have b: "bag (ghost (spawn ?g)) = [1, 2, 3, 4, 5, 6, 0]"
    unfolding ghost_def spawn_next [OF p] by simp
  from first_piece_not_S_or_Z [OF i] b show ?thesis
    by (simp add: i)
qed

end
